theory Spec2Isabelle
  imports Main
begin

section \<open>Incremental export of \<open>b_crm_timeline\<close>: a model of \<open>export.py\<close>\<close>

text \<open>
  The script reads a checkpoint (the last exported \<open>ID\<close>) from \<open>last_id.txt\<close>, pages
  through the table with \<open>WHERE ID > last_id ORDER BY ID LIMIT BATCH_SIZE\<close>, writes every
  page to a CSV file, uploads the file by SCP and only then stores the new checkpoint.

  The model is a shallow embedding with explicit state: a \<open>world\<close> record holds what
  outlives the Python locals (the checkpoint file, the CSV file, the remote directory, the
  queries answered by the data source), an \<open>env\<close> record holds the configuration and the
  table, and every operation that can raise returns \<open>error + 'a\<close> next to the new world.
\<close>

subsection \<open>Errors, rows and files\<close>

datatype error =
    FileNotFoundError
  | OSError
  | ValueError
  | KeyError
  | DbConnectError
  | DbQueryError
  | ScpError

text \<open>
  A cell of the table. A row is the dictionary that the cursor (\<open>dictionary=True\<close>)
  returns: column names with their values, in column order.
\<close>

datatype val = IntV int | StrV string | NullV

type_synonym row = "(string \<times> val) list"

text \<open>
  The checkpoint file \<open>LAST_ID_FILE\<close>: missing, present but not readable as text
  (permissions, a directory, undecodable bytes), or a text.
\<close>

datatype text_file = Absent | Unreadable | Text string

text \<open>
  The CSV file is kept as the sequence of records handed to the CSV writer: the header
  written by \<open>writeheader\<close> and one record per row written by \<open>writerows\<close>. Quoting and
  line ends are the \<open>csv\<close> module's business and are not modelled.
\<close>

datatype csv_record = Header "string list" | Record "val list"

fun is_Header :: "csv_record \<Rightarrow> bool" where
  "is_Header (Header _) = True"
| "is_Header (Record _) = False"

record env =
  table :: "row list"
  BATCH_SIZE :: int
  connect_ok :: bool
  scp_ok :: bool
  write_ok :: bool
  write_truncates :: bool

text \<open>
  \<open>table\<close> is the content of \<open>b_crm_timeline\<close>, fixed during one run; \<open>connect_ok\<close>,
  \<open>scp_ok\<close> and \<open>write_ok\<close> say whether \<open>mysql.connect\<close>, the SCP upload and the
  \<open>write_text\<close> of the checkpoint succeed or raise. \<open>write_truncates\<close> matters only when
  \<open>write_text\<close> raises: it says whether the failure comes after the file was opened,
  and so truncated, or at the opening itself.

  In the world, \<open>db_answers\<close> is the fault the data source will show: \<open>None\<close> when every
  query is answered, \<open>Some k\<close> when \<open>k\<close> more queries are answered and the next one
  raises. \<open>executed\<close> logs every answered query as its lower bound and the page returned;
  \<open>csv_file\<close> is the file at \<open>csv_path\<close> (\<open>None\<close> when it does not exist) and \<open>remote_dir\<close>
  the files delivered by SCP.
\<close>

record world =
  LAST_ID_FILE :: text_file
  csv_file :: "csv_record list option"
  remote_dir :: "csv_record list list"
  db_answers :: "nat option"
  executed :: "(int \<times> row list) list"

subsection \<open>\<open>str\<close> and \<open>int\<close> on decimal text\<close>

text \<open>
  \<open>str(n)\<close> of a Python integer: the decimal digits, with a leading minus sign for a
  negative number.
\<close>

definition digit_char :: "nat \<Rightarrow> char" where
  "digit_char d = char_of (48 + d)"

function str_nat :: "nat \<Rightarrow> string" where
  "str_nat n = (if n < 10 then [digit_char n] else str_nat (n div 10) @ [digit_char (n mod 10)])"
  by pat_completeness auto
termination
  by (relation "measure id") auto

declare str_nat.simps [simp del]

definition str :: "int \<Rightarrow> string" where
  "str i = (if i < 0 then CHR ''-'' # str_nat (nat (- i)) else str_nat (nat i))"

text \<open>
  \<open>s.strip()\<close> removes leading and trailing whitespace. Characters are code points below
  256; the whitespace among them is TAB, LF, VT, FF, CR, FS, GS, RS, US, SPACE, NEL and
  NBSP.
\<close>

definition isspace :: "char \<Rightarrow> bool" where
  "isspace c = (of_char c \<in> {9, 10, 11, 12, 13, 28, 29, 30, 31, 32, 133, 160 :: nat})"

definition strip :: "string \<Rightarrow> string" where
  "strip s = rev (dropWhile isspace (rev (dropWhile isspace s)))"

text \<open>
  \<open>int(s)\<close> in base ten: optional whitespace around, an optional sign, then digits, where
  single underscores may separate digits. Anything else raises \<open>ValueError\<close>.
\<close>

definition digit_val :: "char \<Rightarrow> nat option" where
  "digit_val c = (let k = of_char c :: nat in if 48 \<le> k \<and> k \<le> 57 then Some (k - 48) else None)"

fun parse_digits :: "nat \<Rightarrow> string \<Rightarrow> nat option" where
  "parse_digits acc [] = Some acc"
| "parse_digits acc [c] =
     (case digit_val c of None \<Rightarrow> None | Some v \<Rightarrow> Some (acc * 10 + v))"
| "parse_digits acc (c # d # ds) =
     (if c = CHR ''_'' then
        (case digit_val d of None \<Rightarrow> None | Some v \<Rightarrow> parse_digits (acc * 10 + v) ds)
      else
        (case digit_val c of None \<Rightarrow> None | Some v \<Rightarrow> parse_digits (acc * 10 + v) (d # ds)))"

definition parse_nat :: "string \<Rightarrow> nat option" where
  "parse_nat s =
     (case s of [] \<Rightarrow> None
      | c # cs \<Rightarrow> (case digit_val c of None \<Rightarrow> None | Some v \<Rightarrow> parse_digits v cs))"

definition int_of_str :: "string \<Rightarrow> error + int" where
  "int_of_str s =
     (case strip s of [] \<Rightarrow> Inl ValueError
      | c # cs \<Rightarrow>
          if c = CHR ''-'' then
            (case parse_nat cs of None \<Rightarrow> Inl ValueError | Some n \<Rightarrow> Inr (- int n))
          else if c = CHR ''+'' then
            (case parse_nat cs of None \<Rightarrow> Inl ValueError | Some n \<Rightarrow> Inr (int n))
          else
            (case parse_nat (c # cs) of None \<Rightarrow> Inl ValueError | Some n \<Rightarrow> Inr (int n)))"

subsection \<open>The checkpoint store: \<open>read_last_id\<close> and \<open>write_last_id\<close>\<close>

definition read_text :: "text_file \<Rightarrow> error + string" where
  "read_text f =
     (case f of Absent \<Rightarrow> Inl FileNotFoundError | Unreadable \<Rightarrow> Inl OSError | Text s \<Rightarrow> Inr s)"

text \<open>
  The body of the \<open>try\<close>: \<open>int(LAST_ID_FILE.read_text().strip())\<close>.
\<close>

definition read_last_id_try :: "world \<Rightarrow> error + int" where
  "read_last_id_try w =
     (case read_text (LAST_ID_FILE w) of Inl e \<Rightarrow> Inl e | Inr s \<Rightarrow> int_of_str (strip s))"

text \<open>
  \<open>except Exception: return 0\<close>.
\<close>

definition read_last_id :: "world \<Rightarrow> int" where
  "read_last_id w = (case read_last_id_try w of Inl e \<Rightarrow> 0 | Inr n \<Rightarrow> n)"

text \<open>
  \<open>LAST_ID_FILE.write_text(str(last_id))\<close>: the file is opened for writing, which
  empties it, and the text is written. When the opening raises, the file is as it was;
  when the write raises after the opening, the file is left empty. The few digits are
  written at once or not at all.
\<close>

definition write_last_id :: "env \<Rightarrow> int \<Rightarrow> world \<Rightarrow> (error + unit) \<times> world" where
  "write_last_id e last_id w =
     (if write_ok e then (Inr (), w\<lparr>LAST_ID_FILE := Text (str last_id)\<rparr>)
      else if write_truncates e then (Inl OSError, w\<lparr>LAST_ID_FILE := Text []\<rparr>)
      else (Inl OSError, w))"

subsection \<open>The data source\<close>

text \<open>
  The integer in column \<open>ID\<close> of a row, when there is one, and the key by which
  \<open>ORDER BY ID\<close> sorts. The key 0 of a row without an integer \<open>ID\<close> is never looked
  at: such a row is in no page.
\<close>

definition ID_of :: "row \<Rightarrow> int option" where
  "ID_of r = (case map_of r ''ID'' of Some (IntV i) \<Rightarrow> Some i | _ \<Rightarrow> None)"

definition ID_key :: "row \<Rightarrow> int" where
  "ID_key r = (case ID_of r of Some i \<Rightarrow> i | None \<Rightarrow> 0)"

text \<open>
  \<open>WHERE ID > c\<close>: a row without an integer \<open>ID\<close> never qualifies.
\<close>

definition ID_above :: "int \<Rightarrow> row \<Rightarrow> bool" where
  "ID_above c r = (case ID_of r of Some i \<Rightarrow> c < i | None \<Rightarrow> False)"

text \<open>
  \<open>SELECT * FROM b_crm_timeline WHERE ID > c ORDER BY ID LIMIT n\<close>. Rows with the same
  \<open>ID\<close>, if the table has any, come in table order here; MySQL leaves their order open.
\<close>

definition select_page :: "row list \<Rightarrow> int \<Rightarrow> nat \<Rightarrow> row list" where
  "select_page t c n = take n (sort_key ID_key (filter (ID_above c) t))"

text \<open>
  \<open>cur.execute(..., (last_id, BATCH_SIZE))\<close> followed by \<open>cur.fetchall()\<close>. The query
  raises when the data source is at fault, and MySQL rejects a negative \<open>LIMIT\<close>.
\<close>

definition execute :: "env \<Rightarrow> int \<Rightarrow> world \<Rightarrow> (error + row list) \<times> world" where
  "execute e c w =
     (if db_answers w = Some 0 then (Inl DbQueryError, w)
      else if BATCH_SIZE e < 0 then (Inl DbQueryError, w)
      else
        let rows = select_page (table e) c (nat (BATCH_SIZE e))
        in (Inr rows,
            w\<lparr>db_answers := map_option (\<lambda>k. k - 1) (db_answers w),
              executed := executed w @ [(c, rows)]\<rparr>))"

subsection \<open>The CSV writer\<close>

text \<open>
  Writing through the open file handle appends to the file. \<open>export\<close> opens the file
  before the first write, so the file exists whenever the loop writes; a file that had
  vanished from the directory would not come back by a write through the handle.
\<close>

definition csv_append :: "csv_record list \<Rightarrow> world \<Rightarrow> world" where
  "csv_append recs w = w\<lparr>csv_file := map_option (\<lambda>c. c @ recs) (csv_file w)\<rparr>"

text \<open>
  \<open>csv.DictWriter\<close> with its defaults: a row with a key outside \<open>fieldnames\<close> raises
  \<open>ValueError\<close>, a missing key is written as the empty string. \<open>writerows\<close> writes row
  after row, so the rows before a failing one are in the file.
\<close>

definition dict_to_list :: "string list \<Rightarrow> row \<Rightarrow> error + val list" where
  "dict_to_list fieldnames rowdict =
     (if \<exists>k \<in> set (map fst rowdict). k \<notin> set fieldnames then Inl ValueError
      else Inr (map (\<lambda>k. case map_of rowdict k of None \<Rightarrow> StrV [] | Some v \<Rightarrow> v) fieldnames))"

fun writerows :: "string list \<Rightarrow> row list \<Rightarrow> world \<Rightarrow> (error + unit) \<times> world" where
  "writerows fieldnames [] w = (Inr (), w)"
| "writerows fieldnames (r # rs) w =
     (case dict_to_list fieldnames r of
        Inl err \<Rightarrow> (Inl err, w)
      | Inr vs \<Rightarrow> writerows fieldnames rs (csv_append [Record vs] w))"

subsection \<open>The export loop\<close>

text \<open>
  The local variables of \<open>export\<close> that the loop reads and assigns. \<open>writer\<close> is \<open>None\<close>
  until the first page arrives and then holds the writer's \<open>fieldnames\<close>.
\<close>

record locals =
  last_id :: int
  writer :: "string list option"
  total_exported :: nat
  new_last_id :: int

text \<open>
  The \<open>while True\<close> loop. An exception leaves the loop with the world as it is at that
  moment; the locals are lost. \<open>rows[-1]["ID"]\<close> raises \<open>KeyError\<close> for a row without
  that column; the pages hold no such row, so this branch is never taken. The
  \<open>conn.commit()\<close> after each page is not a step of its own here: were it to raise, the
  run would stand where a failure of the next query leaves it. The loop is total: every
  further query has a larger lower bound, so fewer rows of the table qualify.
\<close>

function export_loop :: "env \<Rightarrow> locals \<Rightarrow> world \<Rightarrow> (error + locals) \<times> world" where
  "export_loop e l w =
     (case execute e (last_id l) w of
        (Inl err, w1) \<Rightarrow> (Inl err, w1)
      | (Inr rows, w1) \<Rightarrow>
          (case rows of
             [] \<Rightarrow> (Inr l, w1)
           | r0 # _ \<Rightarrow>
               (case (case writer l of
                        None \<Rightarrow> (map fst r0, csv_append [Header (map fst r0)] w1)
                      | Some fieldnames \<Rightarrow> (fieldnames, w1)) of
                  (fieldnames, w2) \<Rightarrow>
                    (case writerows fieldnames rows w2 of
                       (Inl err, w3) \<Rightarrow> (Inl err, w3)
                     | (Inr u, w3) \<Rightarrow>
                         (case ID_of (last rows) of
                            None \<Rightarrow> (Inl KeyError, w3)
                          | Some i \<Rightarrow>
                              export_loop e
                                (l\<lparr>last_id := i, writer := Some fieldnames,
                                   total_exported := total_exported l + length rows,
                                   new_last_id := i\<rparr>) w3)))))"
  by pat_completeness auto
termination
proof (relation "measure (\<lambda>(e, l, w). length (filter (ID_above (last_id l)) (table e)))")
  show "wf (measure (\<lambda>(e, l, w). length (filter (ID_above (last_id l)) (table e))))"
    by simp
next
  fix e :: env and l :: locals and w w1 w3 :: world
    and x1 :: "error + row list" and rows :: "row list" and r0 :: row and rest :: "row list"
    and fieldnames :: "string list" and i :: int
  assume ex: "(x1, w1) = execute e (last_id l) w" and x1: "x1 = Inr rows"
    and rows: "rows = r0 # rest" and i: "ID_of (last rows) = Some i"
  let ?c = "last_id l"
  from ex x1 have page: "rows = select_page (table e) ?c (nat (BATCH_SIZE e))"
    by (auto simp: execute_def Let_def split: if_splits)
  from rows have "last rows \<in> set rows" by simp
  with page have mem: "last rows \<in> set (filter (ID_above ?c) (table e))"
    by (auto simp: select_page_def dest: in_set_takeD)
  with i have ci: "?c < i" by (simp add: ID_above_def)
  have not: "\<not> ID_above i (last rows)" using i by (simp add: ID_above_def)
  have "filter (ID_above i) (table e) = filter (ID_above i) (filter (ID_above ?c) (table e))"
    using ci by (auto simp: ID_above_def intro!: filter_cong split: option.splits)
  moreover have "length (filter (ID_above i) (filter (ID_above ?c) (table e)))
      < length (filter (ID_above ?c) (table e))"
    using mem not by (rule length_filter_less)
  ultimately show "((e, l\<lparr>last_id := i, writer := Some fieldnames,
        total_exported := total_exported l + length rows, new_last_id := i\<rparr>, w3), (e, l, w))
      \<in> measure (\<lambda>(e, l, w). length (filter (ID_above (last_id l)) (table e)))"
    by simp
qed

declare export_loop.simps [simp del]

subsection \<open>One run: \<open>export\<close> and the entry point\<close>

text \<open>
  \<open>with scp_client() as scp: scp.put(str(csv_path), ...)\<close>: connecting may fail, and the
  file must exist to be sent.
\<close>

definition scp_put :: "env \<Rightarrow> world \<Rightarrow> (error + unit) \<times> world" where
  "scp_put e w =
     (if \<not> scp_ok e then (Inl ScpError, w)
      else (case csv_file w of
              None \<Rightarrow> (Inl FileNotFoundError, w)
            | Some c \<Rightarrow> (Inr (), w\<lparr>remote_dir := remote_dir w @ [c]\<rparr>)))"

text \<open>
  \<open>export()\<close>. The checkpoint is read first. The \<open>with\<close> statement then connects and,
  after that, opens the CSV file for writing, which creates the file, empty; leaving the
  \<open>with\<close> block closes the file and nothing removes it. Creating the working directory
  and choosing the file name from the clock are left out.
\<close>

definition export :: "env \<Rightarrow> world \<Rightarrow> (error + unit) \<times> world" where
  "export e w =
     (let c = read_last_id w in
      if \<not> connect_ok e then (Inl DbConnectError, w)
      else
        (case export_loop e
                \<lparr>last_id = c, writer = None, total_exported = 0, new_last_id = c\<rparr>
                (w\<lparr>csv_file := Some []\<rparr>) of
           (Inl err, w1) \<Rightarrow> (Inl err, w1)
         | (Inr l, w1) \<Rightarrow>
             if total_exported l = 0 then (Inr (), w1)
             else
               (case scp_put e w1 of
                  (Inl err, w2) \<Rightarrow> (Inl err, w2)
                | (Inr u, w2) \<Rightarrow> write_last_id e (new_last_id l) w2)))"

text \<open>
  The entry point: the exit status is 1 when \<open>export\<close> raised and 0 otherwise.
\<close>

definition main :: "env \<Rightarrow> world \<Rightarrow> int \<times> world" where
  "main e w = (case export e w of (Inl err, w') \<Rightarrow> (1, w') | (Inr u, w') \<Rightarrow> (0, w'))"


section \<open>Notions for the statements and proofs\<close>

subsection \<open>What one run fetched and delivered\<close>

text \<open>
  The queries answered between two worlds, and the rows of their pages in fetch order.
\<close>

definition queries_of_run :: "world \<Rightarrow> world \<Rightarrow> (int \<times> row list) list" where
  "queries_of_run w w' = drop (length (executed w)) (executed w')"

definition rows_of_run :: "world \<Rightarrow> world \<Rightarrow> row list" where
  "rows_of_run w w' = concat (map snd (queries_of_run w w'))"

text \<open>
  The CSV file of the run is in the remote directory: the upload took place.
\<close>

definition delivered :: "world \<Rightarrow> world \<Rightarrow> bool" where
  "delivered w w' =
     (case csv_file w' of None \<Rightarrow> False | Some c \<Rightarrow> remote_dir w' = remote_dir w @ [c])"

text \<open>
  The checkpoint of the run is stored: rows were fetched and the checkpoint file holds
  the decimal text of the highest \<open>ID\<close> among them.
\<close>

definition persisted :: "world \<Rightarrow> world \<Rightarrow> bool" where
  "persisted w w' =
     (rows_of_run w w' \<noteq> [] \<and>
      LAST_ID_FILE w' = Text (str (Max (ID_key ` set (rows_of_run w w')))))"

subsection \<open>The records of \<open>writerows\<close>\<close>

text \<open>
  \<open>writerows\<close> split in two: the records it appends for a list of rows, which are
  those of the rows before the first one that raises, and the exception it raises, if any.
\<close>

fun rows_written :: "string list \<Rightarrow> row list \<Rightarrow> csv_record list" where
  "rows_written fieldnames [] = []"
| "rows_written fieldnames (r # rs) =
     (case dict_to_list fieldnames r of
        Inl err \<Rightarrow> []
      | Inr vs \<Rightarrow> Record vs # rows_written fieldnames rs)"

fun rows_error :: "string list \<Rightarrow> row list \<Rightarrow> error option" where
  "rows_error fieldnames [] = None"
| "rows_error fieldnames (r # rs) =
     (case dict_to_list fieldnames r of
        Inl err \<Rightarrow> Some err
      | Inr vs \<Rightarrow> rows_error fieldnames rs)"

text \<open>
  Everything the loop writes for the rows it fetches, given the \<open>writer\<close> it starts
  with: the header when there is no writer yet, then the records.
\<close>

definition loop_records :: "string list option \<Rightarrow> row list \<Rightarrow> csv_record list" where
  "loop_records wr rows =
     (case rows of [] \<Rightarrow> []
      | r0 # _ \<Rightarrow>
          (case wr of None \<Rightarrow> Header (map fst r0) # rows_written (map fst r0) rows
           | Some fn \<Rightarrow> rows_written fn rows))"

subsection \<open>One iteration of the loop\<close>

text \<open>
  The parts of one iteration, named: the page fetched, the column names of its first
  row, the field names and the header the iteration needs, the locals after it, the
  world after the query was answered, and whether the query raises.
\<close>

definition page_of :: "env \<Rightarrow> locals \<Rightarrow> row list" where
  "page_of e l = select_page (table e) (last_id l) (nat (BATCH_SIZE e))"

definition first_keys :: "row list \<Rightarrow> string list" where
  "first_keys rows = (case rows of [] \<Rightarrow> [] | r0 # _ \<Rightarrow> map fst r0)"

definition fieldnames_of :: "locals \<Rightarrow> row list \<Rightarrow> string list" where
  "fieldnames_of l rows = (case writer l of None \<Rightarrow> first_keys rows | Some fn \<Rightarrow> fn)"

definition header_of :: "locals \<Rightarrow> row list \<Rightarrow> csv_record list" where
  "header_of l rows = (case writer l of None \<Rightarrow> [Header (first_keys rows)] | Some fn \<Rightarrow> [])"

definition advance :: "locals \<Rightarrow> row list \<Rightarrow> locals" where
  "advance l rows =
     l\<lparr>last_id := ID_key (last rows), writer := Some (fieldnames_of l rows),
       total_exported := total_exported l + length rows, new_last_id := ID_key (last rows)\<rparr>"

definition answered :: "int \<Rightarrow> row list \<Rightarrow> world \<Rightarrow> world" where
  "answered c rows w =
     w\<lparr>db_answers := map_option (\<lambda>k. k - 1) (db_answers w),
       executed := executed w @ [(c, rows)]\<rparr>"

definition db_fault :: "env \<Rightarrow> world \<Rightarrow> bool" where
  "db_fault e w = (db_answers w = Some 0 \<or> BATCH_SIZE e < 0)"

text \<open>
  The locals with which \<open>export\<close> enters the loop.
\<close>

definition start_locals :: "world \<Rightarrow> locals" where
  "start_locals w =
     \<lparr>last_id = read_last_id w, writer = None, total_exported = 0,
      new_last_id = read_last_id w\<rparr>"

subsection \<open>Chains of pages\<close>

text \<open>
  A log of queries is a chain from \<open>c\<close> when the first query has lower bound \<open>c\<close>,
  every page is what the data source returns for its lower bound, every further query
  starts at the \<open>ID\<close> of the last row of the page before it, and nothing follows an
  empty page.
\<close>

fun chain :: "env \<Rightarrow> int \<Rightarrow> (int \<times> row list) list \<Rightarrow> bool" where
  "chain e c [] = True"
| "chain e c ((lb, page) # rest) =
     (lb = c \<and> page = select_page (table e) c (nat (BATCH_SIZE e)) \<and>
      (if page = [] then rest = [] else chain e (ID_key (last page)) rest))"

text \<open>
  What a call of the loop guarantees, whether it returns or raises: the queries it adds
  to the log form a chain, the checkpoint file and the remote directory are untouched,
  the CSV file has grown by the records of the rows fetched, and a normal return comes
  after an empty page, with the locals advanced over all rows fetched.
\<close>

definition loop_post ::
  "env \<Rightarrow> locals \<Rightarrow> world \<Rightarrow> (error + locals) \<times> world \<Rightarrow> (int \<times> row list) list \<Rightarrow> bool" where
  "loop_post e l w out log =
     (executed (snd out) = executed w @ log \<and>
      chain e (last_id l) log \<and>
      LAST_ID_FILE (snd out) = LAST_ID_FILE w \<and>
      remote_dir (snd out) = remote_dir w \<and>
      csv_file (snd out) =
        map_option (\<lambda>c. c @ loop_records (writer l) (concat (map snd log))) (csv_file w) \<and>
      (case fst out of
         Inl err \<Rightarrow> True
       | Inr l' \<Rightarrow>
           log \<noteq> [] \<and> snd (last log) = [] \<and>
           l' = (if concat (map snd log) = [] then l else advance l (concat (map snd log)))))"

subsection \<open>Concrete runs\<close>

text \<open>
  A table of five rows with the identifiers 1 to 5, pages of two rows, and three worlds:
  one without a checkpoint and without fault, one whose data source answers a single
  query and then fails, and one whose checkpoint is already 5.
\<close>

definition demo_row :: "int \<Rightarrow> row" where
  "demo_row i = [(''ID'', IntV i), (''COMMENT'', StrV ''call'')]"

definition demo_table :: "row list" where
  "demo_table = [demo_row 1, demo_row 2, demo_row 3, demo_row 4, demo_row 5]"

definition demo_env :: env where
  "demo_env = \<lparr>table = demo_table, BATCH_SIZE = 2,
     connect_ok = True, scp_ok = True, write_ok = True, write_truncates = False\<rparr>"

definition demo_world :: world where
  "demo_world = \<lparr>LAST_ID_FILE = Absent, csv_file = None, remote_dir = [],
     db_answers = None, executed = []\<rparr>"

definition demo_csv :: "csv_record list" where
  "demo_csv = Header [''ID'', ''COMMENT''] # map (\<lambda>i. Record [IntV i, StrV ''call'']) [1, 2, 3, 4, 5]"

definition faulty_world :: world where
  "faulty_world = \<lparr>LAST_ID_FILE = Absent, csv_file = None, remote_dir = [],
     db_answers = Some 1, executed = []\<rparr>"

definition caught_up_world :: world where
  "caught_up_world = \<lparr>LAST_ID_FILE = Text ''5'', csv_file = None, remote_dir = [],
     db_answers = None, executed = []\<rparr>"


section \<open>The checkpoint store\<close>

subsection \<open>Decimal text is read back\<close>

lemma str_nat_small: "n < 10 \<Longrightarrow> str_nat n = [digit_char n]"
  by (subst str_nat.simps) simp

lemma str_nat_big: "\<not> n < 10 \<Longrightarrow> str_nat n = str_nat (n div 10) @ [digit_char (n mod 10)]"
  by (subst str_nat.simps) simp

lemma of_char_digit_char: "d < 10 \<Longrightarrow> (of_char (digit_char d) :: nat) = 48 + d"
  by (simp add: digit_char_def)

lemma digit_val_digit_char: "d < 10 \<Longrightarrow> digit_val (digit_char d) = Some d"
  by (simp add: digit_val_def of_char_digit_char)

lemma digit_val_underscore: "digit_val (CHR ''_'') = None"
  by (simp add: digit_val_def)

lemma digit_val_not_space: "digit_val c = Some v \<Longrightarrow> \<not> isspace c"
  by (auto simp: digit_val_def isspace_def Let_def split: if_splits)

lemma digit_val_not_sign: "digit_val c = Some v \<Longrightarrow> c \<noteq> CHR ''-'' \<and> c \<noteq> CHR ''+''"
  by (auto simp: digit_val_def Let_def split: if_splits)

lemma parse_digits_snoc:
  "parse_digits acc xs = Some a \<Longrightarrow> d < 10 \<Longrightarrow>
   parse_digits acc (xs @ [digit_char d]) = Some (a * 10 + d)"
proof (induction acc xs rule: parse_digits.induct)
  case (1 acc)
  then show ?case by (simp add: digit_val_digit_char)
next
  case (2 acc c)
  then show ?case
    by (auto simp: digit_val_digit_char digit_val_underscore split: option.splits)
next
  case (3 acc c d' ds)
  then show ?case
    by (auto split: option.splits if_splits)
qed

lemma parse_nat_snoc:
  "parse_nat xs = Some a \<Longrightarrow> d < 10 \<Longrightarrow> parse_nat (xs @ [digit_char d]) = Some (a * 10 + d)"
  by (cases xs) (auto simp: parse_nat_def parse_digits_snoc split: option.splits)

lemma parse_nat_str_nat: "parse_nat (str_nat n) = Some n"
proof (induction n rule: str_nat.induct)
  case (1 n)
  show ?case
  proof (cases "n < 10")
    case True
    then show ?thesis by (simp add: str_nat_small parse_nat_def digit_val_digit_char)
  next
    case False
    with 1 have "parse_nat (str_nat (n div 10)) = Some (n div 10)" by simp
    then have "parse_nat (str_nat (n div 10) @ [digit_char (n mod 10)])
        = Some (n div 10 * 10 + n mod 10)"
      by (rule parse_nat_snoc) simp
    with False show ?thesis by (simp add: str_nat_big)
  qed
qed

lemma str_nat_ends:
  "str_nat n \<noteq> [] \<and> digit_val (hd (str_nat n)) \<noteq> None \<and> digit_val (last (str_nat n)) \<noteq> None"
proof (induction n rule: str_nat.induct)
  case (1 n)
  show ?case
  proof (cases "n < 10")
    case True
    then show ?thesis by (simp add: str_nat_small digit_val_digit_char)
  next
    case False
    with 1 have "str_nat (n div 10) \<noteq> [] \<and> digit_val (hd (str_nat (n div 10))) \<noteq> None"
      by simp
    with False show ?thesis
      by (simp add: str_nat_big digit_val_digit_char)
  qed
qed

lemma strip_id: "s \<noteq> [] \<Longrightarrow> \<not> isspace (hd s) \<Longrightarrow> \<not> isspace (last s) \<Longrightarrow> strip s = s"
proof -
  assume s: "s \<noteq> []" and h: "\<not> isspace (hd s)" and l: "\<not> isspace (last s)"
  from h have 1: "dropWhile isspace s = s" by (simp add: dropWhile_eq_self_iff)
  from l have 2: "dropWhile isspace (rev s) = rev s" by (simp add: dropWhile_eq_self_iff hd_rev)
  show ?thesis by (simp add: strip_def 1 2)
qed

lemma minus_not_space: "\<not> isspace (CHR ''-'')"
  by (simp add: isspace_def)

lemma strip_str: "strip (str i) = str i"
proof -
  have e: "str_nat n \<noteq> []" and h: "\<not> isspace (hd (str_nat n))"
    and l: "\<not> isspace (last (str_nat n))" for n
    using str_nat_ends [of n] by (auto dest: digit_val_not_space)
  show ?thesis
  proof (cases "i < 0")
    case True
    then show ?thesis
      by (intro strip_id) (simp_all add: str_def e l minus_not_space)
  next
    case False
    then show ?thesis
      by (intro strip_id) (simp_all add: str_def e h l)
  qed
qed

lemma int_of_str_str: "int_of_str (str i) = Inr i"
proof (cases "i < 0")
  case True
  then show ?thesis
    by (simp add: int_of_str_def strip_str) (simp add: str_def parse_nat_str_nat)
next
  case False
  obtain c cs where cs: "str_nat (nat i) = c # cs"
    using str_nat_ends [of "nat i"] by (cases "str_nat (nat i)") auto
  with str_nat_ends [of "nat i"] have "c \<noteq> CHR ''-''" "c \<noteq> CHR ''+''"
    by (auto dest: digit_val_not_sign)
  moreover have "parse_nat (c # cs) = Some (nat i)"
    using parse_nat_str_nat [of "nat i"] cs by simp
  ultimately show ?thesis using False cs
    by (simp add: int_of_str_def strip_str) (simp add: str_def)
qed

lemma read_after_write:
  "read_last_id (w\<lparr>LAST_ID_FILE := Text (str n)\<rparr>) = n"
  by (simp add: read_last_id_def read_last_id_try_def read_text_def strip_str int_of_str_str)


lemma digit_chars:
  "digit_char 0 = CHR ''0''" "digit_char (Suc 0) = CHR ''1''" "digit_char 2 = CHR ''2''"
  "digit_char 3 = CHR ''3''" "digit_char 4 = CHR ''4''" "digit_char 5 = CHR ''5''"
  "digit_char 6 = CHR ''6''" "digit_char 7 = CHR ''7''" "digit_char 8 = CHR ''8''"
  "digit_char 9 = CHR ''9''"
  by code_simp+

lemma strip_padded:
  assumes "list_all isspace ws1" and "list_all isspace ws2"
    and "s \<noteq> []" and "\<not> isspace (hd s)" and "\<not> isspace (last s)"
  shows "strip (ws1 @ s @ ws2) = s"
proof -
  have "dropWhile isspace (ws1 @ s @ ws2) = dropWhile isspace (s @ ws2)"
    using assms(1) by (intro dropWhile_append2) (simp add: list_all_iff)
  also have "\<dots> = s @ ws2"
    using assms(3,4) by (simp add: dropWhile_eq_self_iff)
  finally have 1: "dropWhile isspace (ws1 @ s @ ws2) = s @ ws2" .
  have "dropWhile isspace (rev ws2 @ rev s) = dropWhile isspace (rev s)"
    using assms(2) by (intro dropWhile_append2) (simp add: list_all_iff)
  also have "\<dots> = rev s"
    using assms(3,5) by (simp add: dropWhile_eq_self_iff hd_rev)
  finally have 2: "dropWhile isspace (rev (s @ ws2)) = rev s" by simp
  show ?thesis by (simp only: strip_def 1 2 rev_rev_ident)
qed

lemma str_ends: "str i \<noteq> [] \<and> \<not> isspace (hd (str i)) \<and> \<not> isspace (last (str i))"
proof -
  have e: "str_nat n \<noteq> []" and h: "\<not> isspace (hd (str_nat n))"
    and l: "\<not> isspace (last (str_nat n))" for n
    using str_nat_ends [of n] by (auto dest: digit_val_not_space)
  show ?thesis by (simp add: str_def e h l minus_not_space)
qed

lemma read_padded:
  assumes "LAST_ID_FILE w = Text (ws1 @ str n @ ws2)"
    and "list_all isspace ws1" and "list_all isspace ws2"
  shows "read_last_id w = n"
proof -
  have "strip (ws1 @ str n @ ws2) = str n"
    using assms(2,3) str_ends [of n] by (intro strip_padded) simp_all
  then show ?thesis
    using assms(1)
    by (simp add: read_last_id_def read_last_id_try_def read_text_def int_of_str_str)
qed


lemma read_Text_str: "LAST_ID_FILE w = Text (str n) \<Longrightarrow> read_last_id w = n"
  by (simp add: read_last_id_def read_last_id_try_def read_text_def strip_str int_of_str_str)

lemma str_not_Nil: "str n \<noteq> []"
  using str_ends [of n] by simp

section \<open>The loop\<close>

subsection \<open>The writer\<close>

lemma csv_append_simps [simp]:
  "LAST_ID_FILE (csv_append recs w) = LAST_ID_FILE w"
  "remote_dir (csv_append recs w) = remote_dir w"
  "db_answers (csv_append recs w) = db_answers w"
  "executed (csv_append recs w) = executed w"
  "csv_file (csv_append recs w) = map_option (\<lambda>c. c @ recs) (csv_file w)"
  by (simp_all add: csv_append_def)

lemma csv_append_Nil [simp]: "csv_append [] w = w"
  by (simp add: csv_append_def option.map_ident)

lemma csv_append_append [simp]: "csv_append b (csv_append a w) = csv_append (a @ b) w"
  by (simp add: csv_append_def option.map_comp comp_def)

lemma writerows_eq:
  "writerows fn rows w =
     ((case rows_error fn rows of None \<Rightarrow> Inr () | Some err \<Rightarrow> Inl err),
      csv_append (rows_written fn rows) w)"
  by (induction rows arbitrary: w) (auto split: sum.splits)

lemma rows_error_append:
  "rows_error fn (xs @ ys) = (case rows_error fn xs of None \<Rightarrow> rows_error fn ys | Some err \<Rightarrow> Some err)"
  by (induction xs) (auto split: sum.splits)

lemma rows_written_append:
  "rows_written fn (xs @ ys) =
     (case rows_error fn xs of None \<Rightarrow> rows_written fn xs @ rows_written fn ys
      | Some err \<Rightarrow> rows_written fn xs)"
  by (induction xs) (auto split: sum.splits option.splits)

lemma rows_written_no_Header: "\<not> is_Header x" if "x \<in> set (rows_written fn rows)"
  using that by (induction rows) (auto split: sum.splits)

subsection \<open>Pages\<close>

lemma select_page_ID:
  assumes "r \<in> set (select_page t c n)"
  shows "r \<in> set t" and "ID_of r = Some (ID_key r)" and "c < ID_key r"
  using assms
  by (auto simp: select_page_def ID_above_def ID_key_def dest!: in_set_takeD split: option.splits)

lemma select_page_sorted: "sorted (map ID_key (select_page t c n))"
  by (simp add: select_page_def take_map [symmetric] sorted_wrt_take)

lemma select_page_le_last:
  assumes "r \<in> set (select_page t c n)"
  shows "ID_key r \<le> ID_key (last (select_page t c n))"
proof (cases "select_page t c n" rule: rev_cases)
  case Nil
  with assms show ?thesis by simp
next
  case (snoc ys y)
  have "sorted (map ID_key (ys @ [y]))"
    using select_page_sorted [of t c n] snoc by simp
  then have "\<forall>x \<in> set ys. ID_key x \<le> ID_key y"
    by (simp add: sorted_append)
  with assms snoc show ?thesis by auto
qed

lemma execute_eq:
  "execute e c w =
     (if db_fault e w then (Inl DbQueryError, w)
      else (Inr (select_page (table e) c (nat (BATCH_SIZE e))),
            answered c (select_page (table e) c (nat (BATCH_SIZE e))) w))"
  by (auto simp: execute_def db_fault_def answered_def Let_def)

lemma page_of_ID:
  assumes "r \<in> set (page_of e l)"
  shows "r \<in> set (table e)" and "ID_of r = Some (ID_key r)" and "last_id l < ID_key r"
    and "ID_key r \<le> ID_key (last (page_of e l))"
  using assms select_page_ID [of r "table e" "last_id l" "nat (BATCH_SIZE e)"]
    select_page_le_last [of r "table e" "last_id l" "nat (BATCH_SIZE e)"]
  by (simp_all add: page_of_def)

lemma list_case_hd: "xs \<noteq> [] \<Longrightarrow> (case xs of [] \<Rightarrow> a | x # ys \<Rightarrow> f x) = f (hd xs)"
  by (cases xs) simp_all

lemma first_keys_Cons [simp]: "first_keys (r # rs) = map fst r"
  by (simp add: first_keys_def)

lemma first_keys_hd: "rows \<noteq> [] \<Longrightarrow> first_keys rows = map fst (hd rows)"
  by (cases rows) simp_all

lemma first_keys_append [simp]: "rows \<noteq> [] \<Longrightarrow> first_keys (rows @ rest) = first_keys rows"
  by (cases rows) simp_all

subsection \<open>One iteration, and induction over the iterations\<close>

lemma export_loop_unfold:
  "export_loop e l w =
     (if db_fault e w then (Inl DbQueryError, w)
      else if page_of e l = [] then (Inr l, answered (last_id l) [] w)
      else
        (case rows_error (fieldnames_of l (page_of e l)) (page_of e l) of
           Some err \<Rightarrow>
             (Inl err,
              csv_append (header_of l (page_of e l) @
                  rows_written (fieldnames_of l (page_of e l)) (page_of e l))
                (answered (last_id l) (page_of e l) w))
         | None \<Rightarrow>
             export_loop e (advance l (page_of e l))
               (csv_append (header_of l (page_of e l) @
                  rows_written (fieldnames_of l (page_of e l)) (page_of e l))
                 (answered (last_id l) (page_of e l) w))))"
proof -
  define rows where "rows = page_of e l"
  have sel: "select_page (table e) (last_id l) (nat (BATCH_SIZE e)) = rows"
    by (simp add: rows_def page_of_def)
  consider (fault) "db_fault e w" | (empty) "\<not> db_fault e w" "rows = []"
    | (page) "\<not> db_fault e w" "rows \<noteq> []"
    by blast
  then have "export_loop e l w =
     (if db_fault e w then (Inl DbQueryError, w)
      else if rows = [] then (Inr l, answered (last_id l) [] w)
      else
        (case rows_error (fieldnames_of l rows) rows of
           Some err \<Rightarrow>
             (Inl err,
              csv_append (header_of l rows @ rows_written (fieldnames_of l rows) rows)
                (answered (last_id l) rows w))
         | None \<Rightarrow>
             export_loop e (advance l rows)
               (csv_append (header_of l rows @ rows_written (fieldnames_of l rows) rows)
                 (answered (last_id l) rows w))))"
  proof cases
    case fault
    then show ?thesis
      by (subst export_loop.simps) (simp add: execute_eq)
  next
    case empty
    then show ?thesis
      by (subst export_loop.simps) (simp add: execute_eq sel)
  next
    case page
    from page(2) have "last rows \<in> set (page_of e l)" by (simp add: rows_def)
    then have id: "ID_of (last rows) = Some (ID_key (last rows))"
      by (rule page_of_ID)
    show ?thesis
    proof (cases "writer l")
      case None
      note wr = this
      show ?thesis
      proof (cases "rows_error (map fst (hd rows)) rows")
        case None
        with page wr show ?thesis
          apply (subst export_loop.simps)
          apply (simp add: execute_eq sel list_case_hd id writerows_eq fieldnames_of_def
            header_of_def advance_def first_keys_hd)
          done
      next
        case (Some err)
        with page wr show ?thesis
          apply (subst export_loop.simps)
          apply (simp add: execute_eq sel list_case_hd id writerows_eq fieldnames_of_def
            header_of_def advance_def first_keys_hd)
          done
      qed
    next
      case (Some fn)
      note wr = this
      show ?thesis
      proof (cases "rows_error fn rows")
        case None
        with page wr show ?thesis
          apply (subst export_loop.simps)
          apply (simp add: execute_eq sel list_case_hd id writerows_eq fieldnames_of_def
            header_of_def advance_def first_keys_hd)
          done
      next
        case (Some err)
        with page wr show ?thesis
          apply (subst export_loop.simps)
          apply (simp add: execute_eq sel list_case_hd id writerows_eq fieldnames_of_def
            header_of_def advance_def first_keys_hd)
          done
      qed
    qed
  qed
  then show ?thesis by (simp only: rows_def)
qed

lemma measure_decreases:
  assumes "page_of e l \<noteq> []"
  shows "length (filter (ID_above (ID_key (last (page_of e l)))) (table e))
       < length (filter (ID_above (last_id l)) (table e))"
proof -
  let ?r = "last (page_of e l)" and ?c = "last_id l"
  from assms have mem: "?r \<in> set (page_of e l)" by simp
  then have t: "?r \<in> set (table e)" and i: "ID_of ?r = Some (ID_key ?r)" and ci: "?c < ID_key ?r"
    by (rule page_of_ID)+
  from t i ci have "?r \<in> set (filter (ID_above ?c) (table e))"
    by (simp add: ID_above_def)
  moreover have "\<not> ID_above (ID_key ?r) ?r" using i by (simp add: ID_above_def)
  ultimately have "length (filter (ID_above (ID_key ?r)) (filter (ID_above ?c) (table e)))
      < length (filter (ID_above ?c) (table e))"
    by (rule length_filter_less)
  moreover have "filter (ID_above (ID_key ?r)) (table e)
      = filter (ID_above (ID_key ?r)) (filter (ID_above ?c) (table e))"
    using ci by (auto simp: ID_above_def intro!: filter_cong split: option.splits)
  ultimately show ?thesis by simp
qed

lemma export_loop_induct [case_names step]:
  assumes step: "\<And>l w.
     (\<not> db_fault e w \<Longrightarrow> page_of e l \<noteq> [] \<Longrightarrow>
        rows_error (fieldnames_of l (page_of e l)) (page_of e l) = None \<Longrightarrow>
        P (advance l (page_of e l))
          (csv_append (header_of l (page_of e l) @
              rows_written (fieldnames_of l (page_of e l)) (page_of e l))
            (answered (last_id l) (page_of e l) w))) \<Longrightarrow> P l w"
  shows "P l w"
proof (induction "length (filter (ID_above (last_id l)) (table e))" arbitrary: l w
    rule: less_induct)
  case (less l w)
  have "P (advance l (page_of e l))
          (csv_append (header_of l (page_of e l) @
              rows_written (fieldnames_of l (page_of e l)) (page_of e l))
            (answered (last_id l) (page_of e l) w))"
    if ne: "page_of e l \<noteq> []"
  proof (rule less)
    show "length (filter (ID_above (last_id (advance l (page_of e l)))) (table e))
        < length (filter (ID_above (last_id l)) (table e))"
      using measure_decreases [OF ne] by (simp add: advance_def)
  qed
  then show ?case by (rule step)
qed

lemma answered_simps [simp]:
  "LAST_ID_FILE (answered c rows w) = LAST_ID_FILE w"
  "remote_dir (answered c rows w) = remote_dir w"
  "csv_file (answered c rows w) = csv_file w"
  "executed (answered c rows w) = executed w @ [(c, rows)]"
  "db_answers (answered c rows w) = map_option (\<lambda>k. k - 1) (db_answers w)"
  by (simp_all add: answered_def)

lemma advance_simps [simp]:
  "last_id (advance l rows) = ID_key (last rows)"
  "new_last_id (advance l rows) = ID_key (last rows)"
  "total_exported (advance l rows) = total_exported l + length rows"
  "writer (advance l rows) = Some (fieldnames_of l rows)"
  by (simp_all add: advance_def)

lemma loop_records_Nil [simp]: "loop_records wr [] = []"
  by (simp add: loop_records_def)

lemma loop_records_Some [simp]: "loop_records (Some fn) rows = rows_written fn rows"
  by (cases rows) (simp_all add: loop_records_def)

lemma loop_records_eq:
  "rows \<noteq> [] \<Longrightarrow>
   loop_records (writer l) rows = header_of l rows @ rows_written (fieldnames_of l rows) rows"
  by (cases rows; cases "writer l")
    (simp_all add: loop_records_def header_of_def fieldnames_of_def)

lemma fieldnames_of_append [simp]:
  "rows \<noteq> [] \<Longrightarrow> fieldnames_of l (rows @ rest) = fieldnames_of l rows"
  by (simp add: fieldnames_of_def split: option.splits)

lemma header_of_append [simp]:
  "rows \<noteq> [] \<Longrightarrow> header_of l (rows @ rest) = header_of l rows"
  by (simp add: header_of_def split: option.splits)

lemma fieldnames_of_advance [simp]:
  "fieldnames_of (advance l rows) rest = fieldnames_of l rows"
  by (simp add: fieldnames_of_def advance_def)

lemma advance_advance:
  "rows \<noteq> [] \<Longrightarrow> rest \<noteq> [] \<Longrightarrow> advance (advance l rows) rest = advance l (rows @ rest)"
  by (cases "writer l") (simp_all add: advance_def fieldnames_of_def)

lemma loop_records_append:
  "rows \<noteq> [] \<Longrightarrow> rows_error (fieldnames_of l rows) rows = None \<Longrightarrow>
   loop_records (writer l) (rows @ rest) =
     header_of l rows @ rows_written (fieldnames_of l rows) rows
       @ rows_written (fieldnames_of l rows) rest"
  by (simp add: loop_records_eq rows_written_append)

lemma export_loop_post: "\<exists>log. loop_post e l w (export_loop e l w) log"
proof (induction l w rule: export_loop_induct [where e = e])
  case (step l w)
  let ?page = "page_of e l"
  let ?fn = "fieldnames_of l ?page"
  let ?w3 = "csv_append (header_of l ?page @ rows_written ?fn ?page) (answered (last_id l) ?page w)"
  consider (fault) "db_fault e w" | (empty) "\<not> db_fault e w" "?page = []"
    | (err) err where "\<not> db_fault e w" "?page \<noteq> []" "rows_error ?fn ?page = Some err"
    | (continue) "\<not> db_fault e w" "?page \<noteq> []" "rows_error ?fn ?page = None"
    by (cases "rows_error ?fn ?page") auto
  then show ?case
  proof cases
    case fault
    then have "loop_post e l w (export_loop e l w) []"
      by (subst export_loop_unfold) (simp add: loop_post_def option.map_ident)
    then show ?thesis ..
  next
    case empty
    then have "loop_post e l w (export_loop e l w) [(last_id l, [])]"
      by (subst export_loop_unfold)
        (simp add: loop_post_def option.map_ident page_of_def [symmetric])
    then show ?thesis ..
  next
    case err
    then have "loop_post e l w (export_loop e l w) [(last_id l, ?page)]"
      by (subst export_loop_unfold)
        (simp add: loop_post_def page_of_def [symmetric] loop_records_eq)
    then show ?thesis ..
  next
    case continue
    then obtain log where log: "loop_post e (advance l ?page) ?w3
        (export_loop e (advance l ?page) ?w3) log"
      using step by blast
    have eq: "export_loop e l w = export_loop e (advance l ?page) ?w3"
      using continue by (subst export_loop_unfold) simp
    have "loop_post e l w (export_loop e l w) ((last_id l, ?page) # log)"
      unfolding eq using log continue
      by (auto simp: loop_post_def page_of_def [symmetric] loop_records_append
          option.map_comp comp_def advance_advance split: sum.splits)
    then show ?thesis ..
  qed
qed

subsection \<open>Chains\<close>

lemma ID_above_iff: "ID_above c r \<longleftrightarrow> ID_of r = Some (ID_key r) \<and> c < ID_key r"
  by (auto simp: ID_above_def ID_key_def split: option.splits)

lemma chain_rows:
  assumes "chain e c log" and "r \<in> set (concat (map snd log))"
  shows "r \<in> set (table e) \<and> ID_of r = Some (ID_key r) \<and> c < ID_key r \<and>
         ID_key r \<le> ID_key (last (concat (map snd log)))"
  using assms
proof (induction log arbitrary: c r)
  case Nil
  then show ?case by simp
next
  case (Cons q log)
  obtain lb page where q: "q = (lb, page)" by (cases q)
  let ?n = "nat (BATCH_SIZE e)" and ?rest = "concat (map snd log)"
  from Cons.prems q have page: "page = select_page (table e) c ?n"
    and nxt: "page \<noteq> [] \<Longrightarrow> chain e (ID_key (last page)) log"
    and stop: "page = [] \<Longrightarrow> log = []"
    by (auto split: if_splits)
  show ?case
  proof (cases "page = []")
    case True
    with Cons.prems q stop show ?thesis by simp
  next
    case False
    let ?c' = "ID_key (last page)"
    have in_page: "x \<in> set (table e) \<and> ID_of x = Some (ID_key x) \<and> c < ID_key x \<and>
        ID_key x \<le> ?c'" if "x \<in> set page" for x
      using that select_page_ID [of x "table e" c ?n] select_page_le_last [of x "table e" c ?n]
      by (simp add: page)
    have in_rest: "x \<in> set (table e) \<and> ID_of x = Some (ID_key x) \<and> ?c' < ID_key x \<and>
        ID_key x \<le> ID_key (last ?rest)" if "x \<in> set ?rest" for x
      using Cons.IH [OF nxt [OF False] that] .
    have c': "c < ?c'" using in_page [of "last page"] False by simp
    show ?thesis
    proof (cases "?rest = []")
      case True
      with Cons.prems q in_page show ?thesis by auto
    next
      case rest: False
      then have "last ?rest \<in> set ?rest" by (rule last_in_set)
      from in_rest [OF this] have "?c' < ID_key (last ?rest)" by simp
      with Cons.prems q in_page in_rest c' rest show ?thesis
        by (fastforce simp: last_append)
    qed
  qed
qed

lemma select_page_sorted_table:
  assumes "sorted_wrt (<) (map ID_key t)"
  shows "select_page t c n = take n (filter (ID_above c) t)"
proof -
  from assms have "sorted_wrt (\<lambda>x y. ID_key x < ID_key y) (filter (ID_above c) t)"
    by (simp add: sorted_wrt_map sorted_wrt_filter)
  then have "sorted_wrt (\<lambda>x y. ID_key x \<le> ID_key y) (filter (ID_above c) t)"
    by (rule sorted_wrt_mono_rel [rotated]) simp
  then have "sorted (map ID_key (filter (ID_above c) t))"
    by (simp add: sorted_wrt_map)
  then show ?thesis
    by (simp add: select_page_def sort_key_id_if_sorted)
qed

lemma select_page_strict:
  assumes "sorted_wrt (<) (map ID_key t)"
  shows "sorted_wrt (<) (map ID_key (select_page t c n))"
proof -
  from assms have "sorted_wrt (\<lambda>x y. ID_key x < ID_key y) (filter (ID_above c) t)"
    by (simp add: sorted_wrt_map sorted_wrt_filter)
  then have "sorted_wrt (\<lambda>x y. ID_key x < ID_key y) (take n (filter (ID_above c) t))"
    by (rule sorted_wrt_take)
  then show ?thesis
    by (simp add: select_page_sorted_table [OF assms] sorted_wrt_map)
qed

lemma chain_sorted:
  assumes "sorted_wrt (<) (map ID_key (table e))" and "chain e c log"
  shows "sorted_wrt (<) (map ID_key (concat (map snd log)))"
  using assms(2)
proof (induction log arbitrary: c)
  case Nil
  then show ?case by simp
next
  case (Cons q log)
  obtain lb page where q: "q = (lb, page)" by (cases q)
  let ?n = "nat (BATCH_SIZE e)" and ?rest = "concat (map snd log)"
  from Cons.prems q have page: "page = select_page (table e) c ?n"
    and nxt: "page \<noteq> [] \<Longrightarrow> chain e (ID_key (last page)) log"
    and stop: "page = [] \<Longrightarrow> log = []"
    by (auto split: if_splits)
  show ?case
  proof (cases "page = []")
    case True
    with q stop show ?thesis by simp
  next
    case False
    have 1: "sorted_wrt (<) (map ID_key page)"
      unfolding page by (rule select_page_strict [OF assms(1)])
    have 2: "sorted_wrt (<) (map ID_key ?rest)"
      by (rule Cons.IH [OF nxt [OF False]])
    have 3: "ID_key x < ID_key y" if "x \<in> set page" "y \<in> set ?rest" for x y
    proof -
      have "ID_key x \<le> ID_key (last page)"
        using that(1) select_page_le_last [of x "table e" c ?n] by (simp add: page)
      moreover have "ID_key (last page) < ID_key y"
        using chain_rows [OF nxt [OF False] that(2)] by simp
      ultimately show ?thesis by simp
    qed
    from 1 2 3 show ?thesis
      by (auto simp: q sorted_wrt_append)
  qed
qed

lemma chain_nth:
  assumes "chain e c log" and "Suc k < length log"
  shows "snd (log ! k) \<noteq> [] \<and> fst (log ! Suc k) = ID_key (last (snd (log ! k)))"
  using assms
proof (induction log arbitrary: c k)
  case Nil
  then show ?case by simp
next
  case (Cons q log)
  obtain lb page where q: "q = (lb, page)" by (cases q)
  from Cons.prems(2) obtain q' log' where log: "log = q' # log'" by (cases log) auto
  obtain lb' page' where q': "q' = (lb', page')" by (cases q')
  from Cons.prems(1) q log have ne: "page \<noteq> []" and nxt: "chain e (ID_key (last page)) log"
    by (auto split: if_splits)
  show ?case
  proof (cases k)
    case 0
    with ne nxt q log q' show ?thesis by simp
  next
    case (Suc j)
    with Cons.prems(2) have "Suc j < length log" by simp
    from Cons.IH [OF nxt this] Suc show ?thesis by simp
  qed
qed

lemma chain_hd: "chain e c log \<Longrightarrow> log \<noteq> [] \<Longrightarrow> fst (hd log) = c"
  by (cases log) auto

lemma page_drop:
  assumes sorted: "sorted_wrt (<) (map ID_key t)"
    and ne: "take n (filter (ID_above c) t) \<noteq> []"
  shows "filter (ID_above (ID_key (last (take n (filter (ID_above c) t))))) t
       = drop n (filter (ID_above c) t)"
proof -
  let ?ys = "filter (ID_above c) t"
  let ?p = "take n ?ys" and ?d = "drop n ?ys"
  let ?i = "ID_key (last ?p)"
  from sorted have "sorted_wrt (\<lambda>x y. ID_key x < ID_key y) ?ys"
    by (simp add: sorted_wrt_map sorted_wrt_filter)
  then have "sorted_wrt (\<lambda>x y. ID_key x < ID_key y) (?p @ ?d)" by simp
  then have sp: "sorted_wrt (\<lambda>x y. ID_key x < ID_key y) ?p"
    and pd: "\<forall>x \<in> set ?p. \<forall>y \<in> set ?d. ID_key x < ID_key y"
    unfolding sorted_wrt_append by blast+
  have lastp: "last ?p \<in> set ?p" using ne by simp
  have ys: "ID_above c x" if "x \<in> set ?ys" for x using that by simp
  have p_sub: "set ?p \<subseteq> set ?ys" by (rule set_take_subset)
  have d_sub: "set ?d \<subseteq> set ?ys" by (rule set_drop_subset)
  have ci: "c < ?i" using lastp p_sub ys by (auto simp: ID_above_iff)
  have p_le: "ID_key x \<le> ?i" if "x \<in> set ?p" for x
  proof -
    have "sorted_wrt (\<lambda>x y. ID_key x < ID_key y) (butlast ?p @ [last ?p])"
      using sp ne by simp
    then have "\<forall>x \<in> set (butlast ?p). ID_key x < ?i"
      by (simp only: sorted_wrt_append) simp
    moreover have "x \<in> set (butlast ?p) \<or> x = last ?p"
      using that ne by (metis append_butlast_last_id in_set_conv_decomp_first
          rotate1.simps(2) set_ConsD set_rotate1)
    ultimately show ?thesis by auto
  qed
  have "filter (ID_above ?i) t = filter (ID_above ?i) ?ys"
    using ci by (auto simp: ID_above_iff intro!: filter_cong)
  also have "\<dots> = filter (ID_above ?i) ?p @ filter (ID_above ?i) ?d"
    by (metis append_take_drop_id filter_append)
  also have "filter (ID_above ?i) ?p = []"
  proof -
    have "\<not> ID_above ?i x" if "x \<in> set ?p" for x
      using p_le [OF that] by (simp add: ID_above_iff)
    then show ?thesis by (simp add: filter_empty_conv)
  qed
  also have "filter (ID_above ?i) ?d = ?d"
  proof -
    have "ID_above ?i y" if "y \<in> set ?d" for y
    proof -
      from that d_sub have "ID_above c y" by (intro ys) blast
      moreover from pd lastp that have "?i < ID_key y" by blast
      ultimately show ?thesis by (simp add: ID_above_iff)
    qed
    then show ?thesis by (simp add: filter_id_conv)
  qed
  finally show ?thesis by simp
qed

lemma chain_complete:
  assumes sorted: "sorted_wrt (<) (map ID_key (table e))" and pos: "0 < BATCH_SIZE e"
    and "chain e c log" and "log \<noteq> []" and "snd (last log) = []"
  shows "concat (map snd log) = filter (ID_above c) (table e)"
  using assms(3-)
proof (induction log arbitrary: c)
  case Nil
  then show ?case by simp
next
  case (Cons q log)
  obtain lb page where q: "q = (lb, page)" by (cases q)
  let ?n = "nat (BATCH_SIZE e)" and ?ys = "filter (ID_above c) (table e)"
  from pos have n: "0 < ?n" by simp
  from Cons.prems q have page: "page = take ?n ?ys"
    and nxt: "page \<noteq> [] \<Longrightarrow> chain e (ID_key (last page)) log"
    and stop: "page = [] \<Longrightarrow> log = []"
    by (auto simp: select_page_sorted_table [OF sorted] split: if_splits)
  show ?case
  proof (cases "page = []")
    case True
    with page n have "?ys = []" by (cases ?ys) auto
    with True q stop show ?thesis by simp
  next
    case False
    have "log \<noteq> []"
    proof
      assume "log = []"
      with Cons.prems q have "page = []" by simp
      with False show False ..
    qed
    moreover from this Cons.prems have "snd (last log) = []" by simp
    ultimately have log: "log \<noteq> []" "snd (last log) = []" .
    have "concat (map snd log) = filter (ID_above (ID_key (last page))) (table e)"
      by (rule Cons.IH [OF nxt [OF False] log])
    also have "\<dots> = drop ?n ?ys"
      using False unfolding page by (intro page_drop sorted)
    finally show ?thesis by (simp add: q page)
  qed
qed

section \<open>One run\<close>

lemma export_eq:
  "export e w =
     (if \<not> connect_ok e then (Inl DbConnectError, w)
      else
        (case export_loop e (start_locals w) (w\<lparr>csv_file := Some []\<rparr>) of
           (Inl err, w1) \<Rightarrow> (Inl err, w1)
         | (Inr l, w1) \<Rightarrow>
             if total_exported l = 0 then (Inr (), w1)
             else
               (case scp_put e w1 of
                  (Inl err, w2) \<Rightarrow> (Inl err, w2)
                | (Inr u, w2) \<Rightarrow> write_last_id e (new_last_id l) w2)))"
  by (simp add: export_def start_locals_def Let_def)

lemma snd_main [simp]: "snd (main e w) = snd (export e w)"
  by (simp add: main_def split: prod.splits sum.splits)

lemma fst_main: "fst (main e w) = (case fst (export e w) of Inl err \<Rightarrow> 1 | Inr u \<Rightarrow> 0)"
  by (simp add: main_def split: prod.splits sum.splits)

lemma queries_of_run_append [simp]:
  "executed w' = executed w @ log \<Longrightarrow> queries_of_run w w' = log"
  by (simp add: queries_of_run_def)

lemma rows_of_run_append [simp]:
  "executed w' = executed w @ log \<Longrightarrow> rows_of_run w w' = concat (map snd log)"
  by (simp add: rows_of_run_def)

lemma start_locals_simps [simp]:
  "last_id (start_locals w) = read_last_id w"
  "writer (start_locals w) = None"
  "total_exported (start_locals w) = 0"
  "new_last_id (start_locals w) = read_last_id w"
  by (simp_all add: start_locals_def)

lemma export_cases [case_names no_connection loop_raised no_rows scp_raised write_raised persisted]:
  obtains
    (no_connection) "\<not> connect_ok e" "export e w = (Inl DbConnectError, w)"
  | (loop_raised) err w' log where
      "connect_ok e" "export e w = (Inl err, w')"
      "export_loop e (start_locals w) (w\<lparr>csv_file := Some []\<rparr>) = (Inl err, w')"
      "executed w' = executed w @ log" "chain e (read_last_id w) log"
      "LAST_ID_FILE w' = LAST_ID_FILE w" "remote_dir w' = remote_dir w"
      "csv_file w' = Some (loop_records None (concat (map snd log)))"
  | (no_rows) w' log where
      "connect_ok e" "export e w = (Inr (), w')"
      "executed w' = executed w @ log" "chain e (read_last_id w) log"
      "LAST_ID_FILE w' = LAST_ID_FILE w" "remote_dir w' = remote_dir w"
      "csv_file w' = Some []" "concat (map snd log) = []"
      "log \<noteq> []" "snd (last log) = []"
  | (scp_raised) w' log where
      "connect_ok e" "\<not> scp_ok e" "export e w = (Inl ScpError, w')"
      "executed w' = executed w @ log" "chain e (read_last_id w) log"
      "LAST_ID_FILE w' = LAST_ID_FILE w" "remote_dir w' = remote_dir w"
      "csv_file w' = Some (loop_records None (concat (map snd log)))"
      "concat (map snd log) \<noteq> []" "log \<noteq> []" "snd (last log) = []"
  | (write_raised) w' log where
      "connect_ok e" "scp_ok e" "\<not> write_ok e" "export e w = (Inl OSError, w')"
      "executed w' = executed w @ log" "chain e (read_last_id w) log"
      "LAST_ID_FILE w' = (if write_truncates e then Text [] else LAST_ID_FILE w)"
      "remote_dir w' = remote_dir w @ [loop_records None (concat (map snd log))]"
      "csv_file w' = Some (loop_records None (concat (map snd log)))"
      "concat (map snd log) \<noteq> []" "log \<noteq> []" "snd (last log) = []"
  | (persisted) w' log where
      "connect_ok e" "scp_ok e" "write_ok e" "export e w = (Inr (), w')"
      "executed w' = executed w @ log" "chain e (read_last_id w) log"
      "LAST_ID_FILE w' = Text (str (ID_key (last (concat (map snd log)))))"
      "remote_dir w' = remote_dir w @ [loop_records None (concat (map snd log))]"
      "csv_file w' = Some (loop_records None (concat (map snd log)))"
      "concat (map snd log) \<noteq> []" "log \<noteq> []" "snd (last log) = []"
proof (cases "connect_ok e")
  case False
  then have "export e w = (Inl DbConnectError, w)" by (simp add: export_eq)
  with False show ?thesis by (rule no_connection)
next
  case True
  let ?l0 = "start_locals w" and ?w0 = "w\<lparr>csv_file := Some []\<rparr>"
  obtain res w1 where loop: "export_loop e ?l0 ?w0 = (res, w1)"
    by (cases "export_loop e ?l0 ?w0")
  obtain log where "loop_post e ?l0 ?w0 (export_loop e ?l0 ?w0) log"
    using export_loop_post by blast
  with loop have ex: "executed w1 = executed w @ log"
    and ch: "chain e (read_last_id w) log"
    and lf: "LAST_ID_FILE w1 = LAST_ID_FILE w"
    and rd: "remote_dir w1 = remote_dir w"
    and csv: "csv_file w1 = Some (loop_records None (concat (map snd log)))"
    and ret: "\<And>l'. res = Inr l' \<Longrightarrow> log \<noteq> [] \<and> snd (last log) = [] \<and>
        l' = (if concat (map snd log) = [] then ?l0 else advance ?l0 (concat (map snd log)))"
    by (simp_all add: loop_post_def)
  show ?thesis
  proof (cases res)
    case (Inl err)
    with True loop have "export e w = (Inl err, w1)" by (simp add: export_eq)
    with True show ?thesis using loop [unfolded Inl] ex ch lf rd csv by (rule loop_raised)
  next
    case (Inr l')
    note r = ret [OF Inr]
    show ?thesis
    proof (cases "concat (map snd log) = []")
      case empty: True
      with r have "total_exported l' = 0" by (simp del: concat_eq_Nil_conv)
      with True loop Inr have "export e w = (Inr (), w1)" by (simp add: export_eq)
      with True show ?thesis using ex ch lf rd csv empty r
        by (intro no_rows [of w1 log]) (simp_all del: concat_eq_Nil_conv)
    next
      case rows: False
      with r have tot: "total_exported l' \<noteq> 0" and nl: "new_last_id l' = ID_key (last (concat (map snd log)))"
        by (simp_all del: concat_eq_Nil_conv)
      show ?thesis
      proof (cases "scp_ok e")
        case False
        with True loop Inr tot have "export e w = (Inl ScpError, w1)"
          by (simp add: export_eq scp_put_def)
        with True False show ?thesis using ex ch lf rd csv rows r
          by (intro scp_raised [of w1 log]) (simp_all del: concat_eq_Nil_conv)
      next
        case scp: True
        let ?w2 = "w1\<lparr>remote_dir := remote_dir w1 @ [loop_records None (concat (map snd log))]\<rparr>"
        have put: "scp_put e w1 = (Inr (), ?w2)"
          using scp csv by (simp add: scp_put_def)
        show ?thesis
        proof (cases "write_ok e")
          case False
          let ?w3 = "if write_truncates e then ?w2\<lparr>LAST_ID_FILE := Text []\<rparr> else ?w2"
          from True loop Inr tot put False have "export e w = (Inl OSError, ?w3)"
            by (simp add: export_eq write_last_id_def)
          with True scp False show ?thesis using ex ch lf rd csv rows r
            by (intro write_raised [of ?w3 log]) (simp_all del: concat_eq_Nil_conv)
        next
          case wr: True
          let ?w3 = "?w2\<lparr>LAST_ID_FILE := Text (str (new_last_id l'))\<rparr>"
          from True loop Inr tot put wr have "export e w = (Inr (), ?w3)"
            by (simp add: export_eq write_last_id_def)
          with True scp wr show ?thesis using ex ch lf rd csv rows r nl
            by (intro persisted [of ?w3 log]) (simp_all del: concat_eq_Nil_conv)
        qed
      qed
    qed
  qed
qed

lemma rows_error_uniform:
  assumes "\<forall>r \<in> set rows. map fst r = cols"
  shows "rows_error cols rows = None"
  using assms by (induction rows) (auto simp: dict_to_list_def)

lemma db_fault_healthy: "db_answers w = None \<Longrightarrow> 0 \<le> BATCH_SIZE e \<Longrightarrow> \<not> db_fault e w"
  by (simp add: db_fault_def)

lemma loop_returns:
  assumes batch: "0 \<le> BATCH_SIZE e" and cols: "list_all (\<lambda>r. map fst r = cols) (table e)"
  shows "db_answers w = None \<Longrightarrow> writer l = None \<or> writer l = Some cols \<Longrightarrow>
         \<exists>l'. fst (export_loop e l w) = Inr l'"
proof (induction l w rule: export_loop_induct [where e = e])
  case (step l w)
  let ?page = "page_of e l"
  let ?fn = "fieldnames_of l ?page"
  from step.prems(1) batch have nofault: "\<not> db_fault e w" by (rule db_fault_healthy)
  show ?case
  proof (cases "?page = []")
    case True
    with nofault show ?thesis by (subst export_loop_unfold) simp
  next
    case False
    have in_table: "map fst r = cols" if "r \<in> set ?page" for r
      using page_of_ID(1) [OF that] cols by (simp add: list_all_iff)
    from False have "hd ?page \<in> set ?page" by simp
    then have "map fst (hd ?page) = cols" by (rule in_table)
    with step.prems(2) False have fn: "?fn = cols"
      by (auto simp: fieldnames_of_def first_keys_hd)
    have noerr: "rows_error ?fn ?page = None"
      unfolding fn by (rule rows_error_uniform) (simp add: in_table)
    have "\<exists>l'. fst (export_loop e (advance l ?page)
        (csv_append (header_of l ?page @ rows_written ?fn ?page)
          (answered (last_id l) ?page w))) = Inr l'"
      using nofault False noerr step.prems(1) fn
      by (intro step.IH) simp_all
    with nofault False noerr show ?thesis
      by (subst export_loop_unfold) simp
  qed
qed

lemma export_healthy:
  assumes sorted: "sorted_wrt (<) (map ID_key (table e))"
    and cols: "list_all (\<lambda>r. map fst r = cols) (table e)"
    and healthy: "db_answers w = None" and conn: "connect_ok e" and batch: "0 < BATCH_SIZE e"
  defines "R \<equiv> filter (ID_above (read_last_id w)) (table e)"
  defines "w' \<equiv> snd (export e w)"
  shows "rows_of_run w w' = R"
    and "csv_file w' = Some (loop_records None R)"
    and "remote_dir w' =
          (if R \<noteq> [] \<and> scp_ok e then remote_dir w @ [loop_records None R] else remote_dir w)"
    and "LAST_ID_FILE w' =
          (if R \<noteq> [] \<and> scp_ok e
           then (if write_ok e then Text (str (ID_key (last R)))
                 else if write_truncates e then Text [] else LAST_ID_FILE w)
           else LAST_ID_FILE w)"
    and "fst (export e w) =
          (if R = [] then Inr () else if \<not> scp_ok e then Inl ScpError
           else if \<not> write_ok e then Inl OSError else Inr ())"
proof -
  let ?l0 = "start_locals w" and ?w0 = "w\<lparr>csv_file := Some []\<rparr>"
  from batch have b0: "0 \<le> BATCH_SIZE e" by simp
  have "\<exists>l'. fst (export_loop e ?l0 ?w0) = Inr l'"
    by (rule loop_returns [OF b0 cols]) (simp_all add: healthy)
  then obtain l' where l': "fst (export_loop e ?l0 ?w0) = Inr l'" ..
  have complete: "concat (map snd log) = R"
    if "chain e (read_last_id w) log" "log \<noteq> []" "snd (last log) = []" for log
    unfolding R_def using sorted batch that by (rule chain_complete)
  have all: "rows_of_run w w' = R \<and> csv_file w' = Some (loop_records None R) \<and>
      remote_dir w' =
          (if R \<noteq> [] \<and> scp_ok e then remote_dir w @ [loop_records None R] else remote_dir w) \<and>
      LAST_ID_FILE w' =
          (if R \<noteq> [] \<and> scp_ok e
           then (if write_ok e then Text (str (ID_key (last R)))
                 else if write_truncates e then Text [] else LAST_ID_FILE w)
           else LAST_ID_FILE w) \<and>
      fst (export e w) =
          (if R = [] then Inr () else if \<not> scp_ok e then Inl ScpError
           else if \<not> write_ok e then Inl OSError else Inr ())"
  proof (cases rule: export_cases [of e w])
    case no_connection
    with conn show ?thesis by simp
  next
    case (loop_raised err w1 log)
    with l' show ?thesis by simp
  next
    case (no_rows w1 log)
    from complete [OF no_rows(4,9,10)] no_rows show ?thesis
      by (simp add: w'_def del: concat_eq_Nil_conv)
  next
    case (scp_raised w1 log)
    from complete [OF scp_raised(5,10,11)] scp_raised show ?thesis
      by (simp add: w'_def del: concat_eq_Nil_conv)
  next
    case (write_raised w1 log)
    from complete [OF write_raised(6,11,12)] write_raised show ?thesis
      by (simp add: w'_def del: concat_eq_Nil_conv)
  next
    case (persisted w1 log)
    from complete [OF persisted(6,11,12)] persisted show ?thesis
      by (simp add: w'_def del: concat_eq_Nil_conv)
  qed
  from all show "rows_of_run w w' = R" by simp
  from all show "csv_file w' = Some (loop_records None R)" by simp
  from all show "remote_dir w' =
          (if R \<noteq> [] \<and> scp_ok e then remote_dir w @ [loop_records None R] else remote_dir w)"
    by simp
  from all show "LAST_ID_FILE w' =
          (if R \<noteq> [] \<and> scp_ok e
           then (if write_ok e then Text (str (ID_key (last R)))
                 else if write_truncates e then Text [] else LAST_ID_FILE w)
           else LAST_ID_FILE w)" by simp
  from all show "fst (export e w) =
          (if R = [] then Inr () else if \<not> scp_ok e then Inl ScpError
           else if \<not> write_ok e then Inl OSError else Inr ())" by simp
qed

lemma rows_of_run_same [simp]: "rows_of_run w w = []"
  by (simp add: rows_of_run_def queries_of_run_def)

lemma queries_of_run_same [simp]: "queries_of_run w w = []"
  by (simp add: queries_of_run_def)

lemma not_delivered [simp]: "remote_dir w' = remote_dir w \<Longrightarrow> \<not> delivered w w'"
  by (simp add: delivered_def split: option.splits)

lemma chain_Max:
  assumes "chain e c log" and "concat (map snd log) \<noteq> []"
  shows "Max (ID_key ` set (concat (map snd log))) = ID_key (last (concat (map snd log)))"
proof (rule Max_eqI)
  show "finite (ID_key ` set (concat (map snd log)))" by simp
  show "y \<le> ID_key (last (concat (map snd log)))"
    if "y \<in> ID_key ` set (concat (map snd log))" for y
    using that chain_rows [OF assms(1)] by blast
  show "ID_key (last (concat (map snd log))) \<in> ID_key ` set (concat (map snd log))"
    using assms(2) by (intro imageI last_in_set)
qed

lemma old_checkpoint_below:
  assumes "chain e (read_last_id w) log" and "concat (map snd log) \<noteq> []"
  shows "LAST_ID_FILE w \<noteq> Text (str (Max (ID_key ` set (concat (map snd log)))))"
proof
  let ?rows = "concat (map snd log)"
  assume "LAST_ID_FILE w = Text (str (Max (ID_key ` set ?rows)))"
  then have "read_last_id w = Max (ID_key ` set ?rows)" by (rule read_Text_str)
  also have "\<dots> = ID_key (last ?rows)" using assms by (rule chain_Max)
  finally have "read_last_id w = ID_key (last ?rows)" .
  moreover have "read_last_id w < ID_key (last ?rows)"
    using chain_rows [OF assms(1) last_in_set [OF assms(2)]] by simp
  ultimately show False by simp
qed

section \<open>The concrete runs\<close>

lemma ID_of_demo_row: "ID_of (demo_row i) = Some i"
  by (simp add: ID_of_def demo_row_def)

lemma ID_key_demo_row: "ID_key (demo_row i) = i"
  by (simp add: ID_key_def ID_of_demo_row)

lemma ID_above_demo_row: "ID_above c (demo_row i) = (c < i)"
  by (simp add: ID_above_def ID_of_demo_row)

lemma fst_demo_row: "map fst (demo_row i) = [''ID'', ''COMMENT'']"
  by (simp add: demo_row_def)

lemma dict_to_list_demo_row:
  "dict_to_list [''ID'', ''COMMENT''] (demo_row i) = Inr [IntV i, StrV ''call'']"
  by (simp add: dict_to_list_def demo_row_def)

lemma demo_sorted: "sorted_wrt (<) (map ID_key (table demo_env))"
  by (simp add: demo_env_def demo_table_def ID_key_demo_row)

lemma demo_cols: "list_all (\<lambda>r. map fst r = [''ID'', ''COMMENT'']) (table demo_env)"
  by (simp add: demo_env_def demo_table_def fst_demo_row)

lemma demo_read: "read_last_id demo_world = 0"
  by (simp add: read_last_id_def read_last_id_try_def read_text_def demo_world_def)

lemma faulty_world_simps:
  "LAST_ID_FILE faulty_world = Absent" "csv_file faulty_world = None"
  "remote_dir faulty_world = []" "db_answers faulty_world = Some 1"
  "executed faulty_world = []"
  by (simp_all add: faulty_world_def)

lemma faulty_read: "read_last_id faulty_world = 0"
  by (simp add: read_last_id_def read_last_id_try_def read_text_def faulty_world_simps)

lemma demo_fault_run:
  "export demo_env faulty_world =
     (Inl DbQueryError,
      \<lparr>LAST_ID_FILE = Absent,
       csv_file = Some [Header [''ID'', ''COMMENT''], Record [IntV 1, StrV ''call''],
                        Record [IntV 2, StrV ''call'']],
       remote_dir = [], db_answers = Some 0,
       executed = [(0, [demo_row 1, demo_row 2])]\<rparr>)"
proof -
  let ?w0 = "faulty_world\<lparr>csv_file := Some []\<rparr>"
  let ?l0 = "start_locals faulty_world"
  let ?page = "[demo_row 1, demo_row 2]"
  have page: "page_of demo_env ?l0 = ?page"
    by (simp add: page_of_def faulty_read select_page_sorted_table [OF demo_sorted])
      (simp add: demo_env_def demo_table_def ID_above_demo_row)
  have nofault: "\<not> db_fault demo_env ?w0"
    by (simp add: db_fault_def demo_env_def faulty_world_simps)
  have fn: "fieldnames_of ?l0 ?page = [''ID'', ''COMMENT'']"
    by (simp add: fieldnames_of_def fst_demo_row)
  have hd: "header_of ?l0 ?page = [Header [''ID'', ''COMMENT'']]"
    by (simp add: header_of_def fst_demo_row)
  have err: "rows_error [''ID'', ''COMMENT''] ?page = None"
    by (simp add: dict_to_list_demo_row)
  have wr: "rows_written [''ID'', ''COMMENT''] ?page =
      [Record [IntV 1, StrV ''call''], Record [IntV 2, StrV ''call'']]"
    by (simp add: dict_to_list_demo_row)
  let ?w1 = "csv_append [Header [''ID'', ''COMMENT''], Record [IntV 1, StrV ''call''],
        Record [IntV 2, StrV ''call'']] (answered 0 ?page ?w0)"
  have step1: "export_loop demo_env ?l0 ?w0 = export_loop demo_env (advance ?l0 ?page) ?w1"
    by (subst export_loop_unfold) (simp add: nofault page fn hd err wr faulty_read
        del: rows_error.simps rows_written.simps)
  have fault: "db_fault demo_env ?w1"
    by (simp add: db_fault_def faulty_world_simps)
  have step2: "export_loop demo_env (advance ?l0 ?page) ?w1 = (Inl DbQueryError, ?w1)"
    by (subst export_loop_unfold) (simp add: fault)
  have "export demo_env faulty_world = (Inl DbQueryError, ?w1)"
    by (simp add: export_eq step1 step2) (simp add: demo_env_def)
  then show ?thesis
    by (simp add: csv_append_def answered_def faulty_world_def)
qed

lemma demo_env_simps:
  "table demo_env = demo_table" "BATCH_SIZE demo_env = 2"
  "connect_ok demo_env" "scp_ok demo_env" "write_ok demo_env" "\<not> write_truncates demo_env"
  by (simp_all add: demo_env_def)

lemma demo_world_simps:
  "LAST_ID_FILE demo_world = Absent" "csv_file demo_world = None"
  "remote_dir demo_world = []" "db_answers demo_world = None" "executed demo_world = []"
  by (simp_all add: demo_world_def)

lemma caught_up_world_simps:
  "LAST_ID_FILE caught_up_world = Text ''5''" "csv_file caught_up_world = None"
  "remote_dir caught_up_world = []" "db_answers caught_up_world = None"
  "executed caught_up_world = []"
  by (simp_all add: caught_up_world_def)

lemma caught_up_read: "read_last_id caught_up_world = 5"
proof -
  have "int_of_str (strip ''5'') = Inr 5" by code_simp
  then show ?thesis
    by (simp add: read_last_id_def read_last_id_try_def read_text_def caught_up_world_simps)
qed

lemma demo_table_facts:
  "filter (ID_above 0) demo_table = demo_table"
  "filter (ID_above 5) demo_table = []"
  "demo_table \<noteq> []"
  "ID_key (last demo_table) = 5"
  "Max (ID_key ` set demo_table) = 5"
  "loop_records None demo_table = demo_csv"
  by (simp_all add: demo_table_def ID_above_demo_row ID_key_demo_row loop_records_def
      demo_csv_def fst_demo_row dict_to_list_demo_row)

lemma str_5: "str 5 = ''5''"
  by (simp add: str_def str_nat_small digit_chars)

lemma demo_batch: "0 < BATCH_SIZE demo_env"
  by (simp add: demo_env_simps)

lemma demo_run:
  "rows_of_run demo_world (snd (export demo_env demo_world)) = demo_table"
  "csv_file (snd (export demo_env demo_world)) = Some demo_csv"
  "remote_dir (snd (export demo_env demo_world)) = [demo_csv]"
  "LAST_ID_FILE (snd (export demo_env demo_world)) = Text ''5''"
  "fst (export demo_env demo_world) = Inr ()"
  using export_healthy [OF demo_sorted demo_cols demo_world_simps(4) demo_env_simps(3) demo_batch]
  by (simp_all add: demo_read demo_table_facts demo_env_simps(1,4,5) demo_world_simps(1,3) str_5)

lemma caught_up_run:
  "rows_of_run caught_up_world (snd (export demo_env caught_up_world)) = []"
  "csv_file (snd (export demo_env caught_up_world)) = Some []"
  "remote_dir (snd (export demo_env caught_up_world)) = []"
  "LAST_ID_FILE (snd (export demo_env caught_up_world)) = Text ''5''"
  "fst (export demo_env caught_up_world) = Inr ()"
  using export_healthy [OF demo_sorted demo_cols caught_up_world_simps(4) demo_env_simps(3)
      demo_batch]
  by (simp_all add: caught_up_read demo_table_facts demo_env_simps(1) caught_up_world_simps(1,3))


lemma scp_fail_run:
  "fst (export (demo_env\<lparr>scp_ok := False\<rparr>) demo_world) = Inl ScpError"
  "LAST_ID_FILE (snd (export (demo_env\<lparr>scp_ok := False\<rparr>) demo_world)) = Absent"
  "csv_file (snd (export (demo_env\<lparr>scp_ok := False\<rparr>) demo_world)) = Some demo_csv"
  "remote_dir (snd (export (demo_env\<lparr>scp_ok := False\<rparr>) demo_world)) = []"
proof -
  let ?e = "demo_env\<lparr>scp_ok := False\<rparr>"
  have 1: "sorted_wrt (<) (map ID_key (table ?e))" using demo_sorted by simp
  have 2: "list_all (\<lambda>r. map fst r = [''ID'', ''COMMENT'']) (table ?e)" using demo_cols by simp
  have 3: "connect_ok ?e" by (simp add: demo_env_simps)
  have 4: "0 < BATCH_SIZE ?e" by (simp add: demo_env_simps)
  note h = export_healthy [OF 1 2 demo_world_simps(4) 3 4]
  from h(5) show "fst (export ?e demo_world) = Inl ScpError"
    by (simp add: demo_read demo_table_facts demo_env_simps(1))
  from h(4) show "LAST_ID_FILE (snd (export ?e demo_world)) = Absent"
    by (simp add: demo_world_simps(1))
  from h(2) show "csv_file (snd (export ?e demo_world)) = Some demo_csv"
    by (simp add: demo_read demo_table_facts demo_env_simps(1))
  from h(3) show "remote_dir (snd (export ?e demo_world)) = []"
    by (simp add: demo_world_simps(3))
qed

lemma write_fail_run:
  "fst (export (demo_env\<lparr>write_ok := False\<rparr>) demo_world) = Inl OSError"
  "rows_of_run demo_world (snd (export (demo_env\<lparr>write_ok := False\<rparr>) demo_world)) = demo_table"
  "LAST_ID_FILE (snd (export (demo_env\<lparr>write_ok := False\<rparr>) demo_world)) = Absent"
  "csv_file (snd (export (demo_env\<lparr>write_ok := False\<rparr>) demo_world)) = Some demo_csv"
  "remote_dir (snd (export (demo_env\<lparr>write_ok := False\<rparr>) demo_world)) = [demo_csv]"
proof -
  let ?e = "demo_env\<lparr>write_ok := False\<rparr>"
  have 1: "sorted_wrt (<) (map ID_key (table ?e))" using demo_sorted by simp
  have 2: "list_all (\<lambda>r. map fst r = [''ID'', ''COMMENT'']) (table ?e)" using demo_cols by simp
  have 3: "connect_ok ?e" by (simp add: demo_env_simps)
  have 4: "0 < BATCH_SIZE ?e" by (simp add: demo_env_simps)
  note h = export_healthy [OF 1 2 demo_world_simps(4) 3 4]
  from h(5) show "fst (export ?e demo_world) = Inl OSError"
    by (simp add: demo_read demo_table_facts demo_env_simps)
  from h(1) show "rows_of_run demo_world (snd (export ?e demo_world)) = demo_table"
    by (simp add: demo_read demo_table_facts demo_env_simps(1))
  from h(4) show "LAST_ID_FILE (snd (export ?e demo_world)) = Absent"
    by (simp add: demo_read demo_table_facts demo_env_simps demo_world_simps(1))
  from h(2) show "csv_file (snd (export ?e demo_world)) = Some demo_csv"
    by (simp add: demo_read demo_table_facts demo_env_simps(1))
  from h(3) show "remote_dir (snd (export ?e demo_world)) = [demo_csv]"
    by (simp add: demo_read demo_table_facts demo_env_simps demo_world_simps(3))
qed

lemma write_truncated_run:
  "fst (export (demo_env\<lparr>write_ok := False, write_truncates := True\<rparr>) demo_world)
     = Inl OSError"
  "LAST_ID_FILE (snd (export (demo_env\<lparr>write_ok := False, write_truncates := True\<rparr>)
     demo_world)) = Text []"
  "remote_dir (snd (export (demo_env\<lparr>write_ok := False, write_truncates := True\<rparr>)
     demo_world)) = [demo_csv]"
proof -
  let ?e = "demo_env\<lparr>write_ok := False, write_truncates := True\<rparr>"
  have 1: "sorted_wrt (<) (map ID_key (table ?e))" using demo_sorted by simp
  have 2: "list_all (\<lambda>r. map fst r = [''ID'', ''COMMENT'']) (table ?e)" using demo_cols by simp
  have 3: "connect_ok ?e" by (simp add: demo_env_simps)
  have 4: "0 < BATCH_SIZE ?e" by (simp add: demo_env_simps)
  note h = export_healthy [OF 1 2 demo_world_simps(4) 3 4]
  from h(5) show "fst (export ?e demo_world) = Inl OSError"
    by (simp add: demo_read demo_table_facts demo_env_simps)
  from h(4) show "LAST_ID_FILE (snd (export ?e demo_world)) = Text []"
    by (simp add: demo_read demo_table_facts demo_env_simps)
  from h(3) show "remote_dir (snd (export ?e demo_world)) = [demo_csv]"
    by (simp add: demo_read demo_table_facts demo_env_simps demo_world_simps(3))
qed

section \<open>The properties of the export\<close>

subsection \<open>Reading the checkpoint\<close>

text \<open>
  Claim C7. \<open>read_last_id\<close> returns 0 whenever the body of its \<open>try\<close> raises, whatever
  the exception: when the file is absent, when it cannot be read, when it is empty, and
  when its stripped text is not an integer. In every other case it returns the integer
  that the text denotes; in particular a file that holds the decimal text of \<open>n\<close>, with
  any whitespace before and after it, is read as \<open>n\<close>. The result is an \<open>int\<close>, not an
  \<open>error + int\<close>: no path of \<open>read_last_id\<close> raises.
\<close>

theorem read_last_id_never_fails:
  "(read_last_id_try w = Inl err \<longrightarrow> read_last_id w = 0) \<and>
   (LAST_ID_FILE w = Absent \<longrightarrow> read_last_id w = 0) \<and>
   (LAST_ID_FILE w = Unreadable \<longrightarrow> read_last_id w = 0) \<and>
   (LAST_ID_FILE w = Text [] \<longrightarrow> read_last_id w = 0) \<and>
   (LAST_ID_FILE w = Text s \<and> int_of_str (strip s) = Inl err \<longrightarrow> read_last_id w = 0) \<and>
   (LAST_ID_FILE w = Text s \<and> int_of_str (strip s) = Inr n \<longrightarrow> read_last_id w = n) \<and>
   (LAST_ID_FILE w = Text (ws1 @ str n @ ws2) \<and> list_all isspace ws1 \<and> list_all isspace ws2
      \<longrightarrow> read_last_id w = n)"
proof -
  have "read_last_id w = n"
    if "LAST_ID_FILE w = Text (ws1 @ str n @ ws2)" "list_all isspace ws1" "list_all isspace ws2"
    using that by (rule read_padded)
  moreover have "read_last_id_try w = Inl err \<longrightarrow> read_last_id w = 0"
    by (simp add: read_last_id_def)
  moreover have "LAST_ID_FILE w = Absent \<longrightarrow> read_last_id w = 0"
    "LAST_ID_FILE w = Unreadable \<longrightarrow> read_last_id w = 0"
    by (simp_all add: read_last_id_def read_last_id_try_def read_text_def)
  moreover have "LAST_ID_FILE w = Text [] \<longrightarrow> read_last_id w = 0"
    by (simp add: read_last_id_def read_last_id_try_def read_text_def int_of_str_def strip_def)
  moreover have "LAST_ID_FILE w = Text s \<and> int_of_str (strip s) = Inl err \<longrightarrow> read_last_id w = 0"
    "LAST_ID_FILE w = Text s \<and> int_of_str (strip s) = Inr n \<longrightarrow> read_last_id w = n"
    by (simp_all add: read_last_id_def read_last_id_try_def read_text_def)
  ultimately show ?thesis by blast
qed

theorem read_last_id_never_fails_witness:
  "read_last_id (demo_world\<lparr>LAST_ID_FILE := Absent\<rparr>) = 0 \<and>
   read_last_id (demo_world\<lparr>LAST_ID_FILE := Unreadable\<rparr>) = 0 \<and>
   read_last_id (demo_world\<lparr>LAST_ID_FILE := Text []\<rparr>) = 0 \<and>
   int_of_str (strip ''4x2'') = Inl ValueError \<and>
   read_last_id (demo_world\<lparr>LAST_ID_FILE := Text ''4x2''\<rparr>) = 0 \<and>
   int_of_str (strip '' 42  '') = Inr 42 \<and>
   read_last_id (demo_world\<lparr>LAST_ID_FILE := Text '' 42  ''\<rparr>) = 42"
proof -
  have a: "int_of_str (strip ''4x2'') = Inl ValueError" by code_simp
  have b: "int_of_str (strip '' 42  '') = Inr 42" by code_simp
  have 1: "read_last_id (demo_world\<lparr>LAST_ID_FILE := Absent\<rparr>) = 0"
    using read_last_id_never_fails [of "demo_world\<lparr>LAST_ID_FILE := Absent\<rparr>"]
    by simp
  have 2: "read_last_id (demo_world\<lparr>LAST_ID_FILE := Unreadable\<rparr>) = 0"
    using read_last_id_never_fails [of "demo_world\<lparr>LAST_ID_FILE := Unreadable\<rparr>"]
    by simp
  have 3: "read_last_id (demo_world\<lparr>LAST_ID_FILE := Text []\<rparr>) = 0"
    using read_last_id_never_fails [of "demo_world\<lparr>LAST_ID_FILE := Text []\<rparr>"]
    by simp
  have 4: "read_last_id (demo_world\<lparr>LAST_ID_FILE := Text ''4x2''\<rparr>) = 0"
    using read_last_id_never_fails
      [of "demo_world\<lparr>LAST_ID_FILE := Text ''4x2''\<rparr>" ValueError "''4x2''"] a
    by simp
  have 5: "read_last_id (demo_world\<lparr>LAST_ID_FILE := Text '' 42  ''\<rparr>) = 42"
    using read_last_id_never_fails
      [of "demo_world\<lparr>LAST_ID_FILE := Text '' 42  ''\<rparr>" _ "'' 42  ''" 42] b
    by simp
  from 1 2 3 4 5 a b show ?thesis by blast
qed

subsection \<open>Writing and reading back\<close>

text \<open>
  Claim C10. When the write does not raise, \<open>write_last_id\<close> stores the decimal text of
  \<open>n\<close> and a following \<open>read_last_id\<close> returns \<open>n\<close>. This holds for every integer \<open>n\<close>,
  and so for every non-negative one. \<open>str\<close> and \<open>int\<close> are those of Python 3.6, which
  put no limit on the number of digits.
\<close>

theorem checkpoint_roundtrip:
  "write_ok e \<Longrightarrow>
   LAST_ID_FILE (snd (write_last_id e n w)) = Text (str n) \<and>
   read_last_id (snd (write_last_id e n w)) = n"
  by (simp add: write_last_id_def read_after_write)

theorem checkpoint_roundtrip_witness:
  "write_ok demo_env \<and>
   LAST_ID_FILE (snd (write_last_id demo_env 12500 demo_world)) = Text ''12500'' \<and>
   read_last_id (snd (write_last_id demo_env 12500 demo_world)) = 12500"
proof -
  have ok: "write_ok demo_env" by (simp add: demo_env_def)
  have s: "str 12500 = ''12500''"
    by (simp add: str_def str_nat_small str_nat_big digit_chars)
  from checkpoint_roundtrip [OF ok, of 12500 demo_world] ok s show ?thesis by simp
qed

subsection \<open>When the checkpoint is stored\<close>

text \<open>
  Claim C1, as the code has it. In every run the checkpoint of the run is stored exactly
  when rows were fetched, the CSV file was delivered and the write of the checkpoint
  file did not raise; the value stored is then the highest \<open>ID\<close> among the rows
  fetched. Unless rows were fetched and the file was delivered, the checkpoint file is
  the one the run started with. When the upload raises, the checkpoint file is the one
  the run started with and the CSV file is still there.
\<close>

theorem checkpoint_persisted_iff:
  fixes e :: env and w :: world
  defines "w' \<equiv> snd (main e w)"
  shows "(persisted w w' \<longleftrightarrow> rows_of_run w w' \<noteq> [] \<and> delivered w w' \<and> write_ok e) \<and>
         (\<not> (rows_of_run w w' \<noteq> [] \<and> delivered w w') \<longrightarrow> LAST_ID_FILE w' = LAST_ID_FILE w) \<and>
         (fst (export e w) = Inl ScpError \<longrightarrow>
            LAST_ID_FILE w' = LAST_ID_FILE w \<and> csv_file w' \<noteq> None)"
proof (cases rule: export_cases [of e w])
  case no_connection
  then show ?thesis by (simp add: w'_def persisted_def)
next
  case (loop_raised err w1 log)
  have "concat (map snd log) \<noteq> [] \<Longrightarrow>
      LAST_ID_FILE w \<noteq> Text (str (Max (ID_key ` set (concat (map snd log)))))"
    using loop_raised(5) by (rule old_checkpoint_below)
  with loop_raised show ?thesis
    by (auto simp: w'_def persisted_def simp del: concat_eq_Nil_conv)
next
  case (no_rows w1 log)
  then show ?thesis by (simp add: w'_def persisted_def del: concat_eq_Nil_conv)
next
  case (scp_raised w1 log)
  have "LAST_ID_FILE w \<noteq> Text (str (Max (ID_key ` set (concat (map snd log)))))"
    using scp_raised(5,9) by (rule old_checkpoint_below)
  with scp_raised show ?thesis
    by (simp add: w'_def persisted_def del: concat_eq_Nil_conv)
next
  case (write_raised w1 log)
  have "LAST_ID_FILE w \<noteq> Text (str (Max (ID_key ` set (concat (map snd log)))))"
    using write_raised(6,10) by (rule old_checkpoint_below)
  moreover have "Text [] \<noteq> Text (str (Max (ID_key ` set (concat (map snd log)))))"
    using str_not_Nil [of "Max (ID_key ` set (concat (map snd log)))"] by auto
  ultimately show ?thesis using write_raised
    by (simp add: w'_def persisted_def delivered_def del: concat_eq_Nil_conv)
next
  case (persisted w1 log)
  from persisted(6,10) have "Max (ID_key ` set (concat (map snd log)))
      = ID_key (last (concat (map snd log)))" by (rule chain_Max)
  with persisted show ?thesis
    by (simp add: w'_def persisted_def delivered_def del: concat_eq_Nil_conv)
qed

theorem checkpoint_persisted_iff_witness:
  "rows_of_run demo_world (snd (main demo_env demo_world)) = demo_table \<and>
   delivered demo_world (snd (main demo_env demo_world)) \<and>
   write_ok demo_env \<and>
   persisted demo_world (snd (main demo_env demo_world)) \<and>
   LAST_ID_FILE (snd (main demo_env demo_world)) = Text ''5'' \<and>
   fst (export (demo_env\<lparr>scp_ok := False\<rparr>) demo_world) = Inl ScpError \<and>
   \<not> delivered demo_world (snd (main (demo_env\<lparr>scp_ok := False\<rparr>) demo_world)) \<and>
   LAST_ID_FILE (snd (main (demo_env\<lparr>scp_ok := False\<rparr>) demo_world))
     = LAST_ID_FILE demo_world \<and>
   csv_file (snd (main (demo_env\<lparr>scp_ok := False\<rparr>) demo_world)) \<noteq> None"
proof -
  have ok: "write_ok demo_env" by (rule demo_env_simps)
  have r: "rows_of_run demo_world (snd (main demo_env demo_world)) = demo_table"
    by (simp add: demo_run)
  have d: "delivered demo_world (snd (main demo_env demo_world))"
    by (simp add: delivered_def demo_run demo_world_simps(3))
  have ne: "rows_of_run demo_world (snd (main demo_env demo_world)) \<noteq> []"
    unfolding r by (rule demo_table_facts)
  from checkpoint_persisted_iff [of demo_world demo_env] ne d ok
  have p: "persisted demo_world (snd (main demo_env demo_world))" by blast
  then have f: "LAST_ID_FILE (snd (main demo_env demo_world)) = Text ''5''"
    unfolding persisted_def r by (simp add: demo_table_facts str_5)
  have nd: "\<not> delivered demo_world (snd (main (demo_env\<lparr>scp_ok := False\<rparr>) demo_world))"
    by (simp add: delivered_def scp_fail_run demo_world_simps(3))
  from checkpoint_persisted_iff [of demo_world "demo_env\<lparr>scp_ok := False\<rparr>"] scp_fail_run(1)
  have s: "LAST_ID_FILE (snd (main (demo_env\<lparr>scp_ok := False\<rparr>) demo_world))
        = LAST_ID_FILE demo_world \<and>
      csv_file (snd (main (demo_env\<lparr>scp_ok := False\<rparr>) demo_world)) \<noteq> None"
    by blast
  from r d ok p f nd s scp_fail_run(1) show ?thesis by blast
qed

text \<open>
  Without the condition on the write the equivalence fails. Here the write of the
  checkpoint file raises: all five rows are fetched and the CSV file is delivered, the
  run exits with status 1, and the checkpoint is not stored. When the opening raises the
  file is still absent; when the write raises after the opening the file is empty.
  Either way the next run reads the checkpoint 0.
\<close>

theorem checkpoint_not_persisted_counterexample:
  "rows_of_run demo_world (snd (main (demo_env\<lparr>write_ok := False\<rparr>) demo_world))
     = demo_table \<and>
   demo_table \<noteq> [] \<and>
   delivered demo_world (snd (main (demo_env\<lparr>write_ok := False\<rparr>) demo_world)) \<and>
   fst (main (demo_env\<lparr>write_ok := False\<rparr>) demo_world) = 1 \<and>
   LAST_ID_FILE (snd (main (demo_env\<lparr>write_ok := False\<rparr>) demo_world)) = Absent \<and>
   read_last_id (snd (main (demo_env\<lparr>write_ok := False\<rparr>) demo_world)) = 0 \<and>
   \<not> persisted demo_world (snd (main (demo_env\<lparr>write_ok := False\<rparr>) demo_world)) \<and>
   LAST_ID_FILE (snd (main (demo_env\<lparr>write_ok := False, write_truncates := True\<rparr>)
     demo_world)) = Text [] \<and>
   read_last_id (snd (main (demo_env\<lparr>write_ok := False, write_truncates := True\<rparr>)
     demo_world)) = 0"
proof -
  have 1: "delivered demo_world (snd (export (demo_env\<lparr>write_ok := False\<rparr>) demo_world))"
    by (simp add: delivered_def write_fail_run demo_world_simps(3))
  have 2: "read_last_id (snd (export (demo_env\<lparr>write_ok := False\<rparr>) demo_world)) = 0"
    by (simp add: read_last_id_def read_last_id_try_def read_text_def write_fail_run)
  have 3: "read_last_id (snd (export (demo_env\<lparr>write_ok := False, write_truncates := True\<rparr>)
      demo_world)) = 0"
    by (simp add: read_last_id_def read_last_id_try_def read_text_def write_truncated_run
        int_of_str_def strip_def)
  show ?thesis
    by (simp add: 1 2 3 write_fail_run write_truncated_run persisted_def fst_main
        demo_table_facts)
qed

subsection \<open>No gaps and no repeats\<close>

text \<open>
  Claim C2. Over a table whose identifiers increase strictly, in every run (also one
  that ends with an exception) the rows of all pages fetched, in fetch order, have
  strictly increasing identifiers, are distinct, and lie above the checkpoint the run
  started from; the first query has that checkpoint as lower bound, and every further
  query has as lower bound the \<open>ID\<close> of the last row of the page before it, which is
  not empty.
\<close>

theorem pages_strictly_increasing:
  fixes e :: env and w :: world
  assumes "sorted_wrt (<) (map ID_key (table e))"
  defines "qs \<equiv> queries_of_run w (snd (main e w))"
  defines "rows \<equiv> rows_of_run w (snd (main e w))"
  shows "sorted_wrt (<) (map ID_key rows) \<and>
         distinct rows \<and>
         (\<forall>r \<in> set rows. ID_of r = Some (ID_key r) \<and> read_last_id w < ID_key r) \<and>
         (qs \<noteq> [] \<longrightarrow> fst (hd qs) = read_last_id w) \<and>
         (\<forall>k. Suc k < length qs \<longrightarrow>
            snd (qs ! k) \<noteq> [] \<and> fst (qs ! Suc k) = ID_key (last (snd (qs ! k))))"
proof -
  obtain log where ex: "executed (snd (export e w)) = executed w @ log"
    and ch: "chain e (read_last_id w) log"
    by (cases rule: export_cases [of e w]) (auto intro: that [of "[]"])
  have qs: "qs = log" and rows: "rows = concat (map snd log)"
    using ex by (simp_all add: qs_def rows_def)
  have s: "sorted_wrt (<) (map ID_key rows)"
    unfolding rows using assms(1) ch by (rule chain_sorted)
  then have "distinct (map ID_key rows)"
    by (simp add: strict_sorted_iff)
  then have d: "distinct rows" by (simp add: distinct_map)
  from s d chain_rows [OF ch] chain_hd [OF ch] chain_nth [OF ch]
  show ?thesis unfolding qs rows by blast
qed

theorem pages_strictly_increasing_witness:
  "sorted_wrt (<) (map ID_key (table demo_env)) \<and>
   rows_of_run demo_world (snd (main demo_env demo_world)) = demo_table \<and>
   sorted_wrt (<) (map ID_key (rows_of_run demo_world (snd (main demo_env demo_world)))) \<and>
   distinct (rows_of_run demo_world (snd (main demo_env demo_world)))"
  using pages_strictly_increasing [OF demo_sorted, of demo_world] demo_sorted
  by (simp add: demo_run)

subsection \<open>The batch size\<close>

text \<open>
  Claim C3. Over a table whose identifiers increase strictly and whose rows all have the
  same columns, with a data source without fault, two runs from the same world that
  differ in nothing but a positive batch size end alike: the same exit status, the same
  rows fetched in the same order, the same CSV file, the same remote directory and the
  same checkpoint. Only the log of queries, that is the page boundaries, differs.
\<close>

theorem batch_size_invariance:
  fixes e :: env and w :: world and b1 b2 :: int
  assumes "sorted_wrt (<) (map ID_key (table e))"
    and "list_all (\<lambda>r. map fst r = cols) (table e)"
    and "db_answers w = None" and "0 < b1" and "0 < b2"
  defines "r1 \<equiv> main (e\<lparr>BATCH_SIZE := b1\<rparr>) w"
  defines "r2 \<equiv> main (e\<lparr>BATCH_SIZE := b2\<rparr>) w"
  shows "fst r1 = fst r2 \<and>
         rows_of_run w (snd r1) = rows_of_run w (snd r2) \<and>
         csv_file (snd r1) = csv_file (snd r2) \<and>
         remote_dir (snd r1) = remote_dir (snd r2) \<and>
         LAST_ID_FILE (snd r1) = LAST_ID_FILE (snd r2) \<and>
         read_last_id (snd r1) = read_last_id (snd r2)"
proof (cases "connect_ok e")
  case False
  then show ?thesis by (simp add: r1_def r2_def main_def export_eq)
next
  case True
  have healthy: "rows_of_run w (snd (export (e\<lparr>BATCH_SIZE := b\<rparr>) w))
        = filter (ID_above (read_last_id w)) (table e)"
      "csv_file (snd (export (e\<lparr>BATCH_SIZE := b\<rparr>) w))
        = Some (loop_records None (filter (ID_above (read_last_id w)) (table e)))"
      "remote_dir (snd (export (e\<lparr>BATCH_SIZE := b\<rparr>) w)) =
         (if filter (ID_above (read_last_id w)) (table e) \<noteq> [] \<and> scp_ok e
          then remote_dir w @ [loop_records None (filter (ID_above (read_last_id w)) (table e))]
          else remote_dir w)"
      "LAST_ID_FILE (snd (export (e\<lparr>BATCH_SIZE := b\<rparr>) w)) =
         (if filter (ID_above (read_last_id w)) (table e) \<noteq> [] \<and> scp_ok e
          then (if write_ok e
                then Text (str (ID_key (last (filter (ID_above (read_last_id w)) (table e)))))
                else if write_truncates e then Text [] else LAST_ID_FILE w)
          else LAST_ID_FILE w)"
      "fst (export (e\<lparr>BATCH_SIZE := b\<rparr>) w) =
         (if filter (ID_above (read_last_id w)) (table e) = [] then Inr ()
          else if \<not> scp_ok e then Inl ScpError
          else if \<not> write_ok e then Inl OSError else Inr ())"
    if "0 < b" for b
  proof -
    let ?e = "e\<lparr>BATCH_SIZE := b\<rparr>"
    have 1: "sorted_wrt (<) (map ID_key (table ?e))" using assms(1) by simp
    have 2: "list_all (\<lambda>r. map fst r = cols) (table ?e)" using assms(2) by simp
    have 3: "connect_ok ?e" using True by simp
    have 4: "0 < BATCH_SIZE ?e" using that by simp
    note h = export_healthy [OF 1 2 assms(3) 3 4]
    from h(1) show "rows_of_run w (snd (export ?e w))
        = filter (ID_above (read_last_id w)) (table e)" by simp
    from h(2) show "csv_file (snd (export ?e w))
        = Some (loop_records None (filter (ID_above (read_last_id w)) (table e)))" by simp
    from h(3) show "remote_dir (snd (export ?e w)) =
         (if filter (ID_above (read_last_id w)) (table e) \<noteq> [] \<and> scp_ok e
          then remote_dir w @ [loop_records None (filter (ID_above (read_last_id w)) (table e))]
          else remote_dir w)" by simp
    from h(4) show "LAST_ID_FILE (snd (export ?e w)) =
         (if filter (ID_above (read_last_id w)) (table e) \<noteq> [] \<and> scp_ok e
          then (if write_ok e
                then Text (str (ID_key (last (filter (ID_above (read_last_id w)) (table e)))))
                else if write_truncates e then Text [] else LAST_ID_FILE w)
          else LAST_ID_FILE w)" by simp
    from h(5) show "fst (export ?e w) =
         (if filter (ID_above (read_last_id w)) (table e) = [] then Inr ()
          else if \<not> scp_ok e then Inl ScpError
          else if \<not> write_ok e then Inl OSError else Inr ())" by simp
  qed
  have "rows_of_run w (snd r1) = rows_of_run w (snd r2)"
    "csv_file (snd r1) = csv_file (snd r2)"
    "remote_dir (snd r1) = remote_dir (snd r2)"
    "LAST_ID_FILE (snd r1) = LAST_ID_FILE (snd r2)"
    "fst (export (e\<lparr>BATCH_SIZE := b1\<rparr>) w) = fst (export (e\<lparr>BATCH_SIZE := b2\<rparr>) w)"
    using healthy [OF assms(4)] healthy [OF assms(5)]
    by (simp_all only: r1_def r2_def snd_main)
  then show ?thesis
    by (simp add: r1_def r2_def fst_main read_last_id_def read_last_id_try_def)
qed

theorem batch_size_invariance_witness:
  "sorted_wrt (<) (map ID_key (table demo_env)) \<and>
   list_all (\<lambda>r. map fst r = [''ID'', ''COMMENT'']) (table demo_env) \<and>
   db_answers demo_world = None \<and> (0::int) < 1 \<and> (0::int) < 5000 \<and>
   fst (main (demo_env\<lparr>BATCH_SIZE := 1\<rparr>) demo_world)
     = fst (main (demo_env\<lparr>BATCH_SIZE := 5000\<rparr>) demo_world) \<and>
   rows_of_run demo_world (snd (main (demo_env\<lparr>BATCH_SIZE := 1\<rparr>) demo_world))
     = rows_of_run demo_world (snd (main (demo_env\<lparr>BATCH_SIZE := 5000\<rparr>) demo_world)) \<and>
   csv_file (snd (main (demo_env\<lparr>BATCH_SIZE := 1\<rparr>) demo_world))
     = csv_file (snd (main (demo_env\<lparr>BATCH_SIZE := 5000\<rparr>) demo_world)) \<and>
   LAST_ID_FILE (snd (main (demo_env\<lparr>BATCH_SIZE := 1\<rparr>) demo_world))
     = LAST_ID_FILE (snd (main (demo_env\<lparr>BATCH_SIZE := 5000\<rparr>) demo_world))"
proof -
  have p: "(0::int) < 1" "(0::int) < 5000" by simp_all
  from batch_size_invariance [OF demo_sorted demo_cols demo_world_simps(4) p]
    demo_sorted demo_cols demo_world_simps(4)
  show ?thesis by simp
qed

subsection \<open>A run that finds no new row\<close>

text \<open>
  Claim C4, at a concrete run. The checkpoint is 5, no row of the table has a larger
  \<open>ID\<close>, and there is no CSV file before the run. The run exits with status 0, uploads
  nothing and leaves the checkpoint file as it was, but it leaves a CSV file behind,
  empty: \<open>export\<close> opens the file for writing before the first query, and the message
  it prints in this case says that no file was created.
\<close>

theorem empty_run_leaves_empty_file:
  "read_last_id caught_up_world = 5 \<and>
   filter (ID_above (read_last_id caught_up_world)) (table demo_env) = [] \<and>
   csv_file caught_up_world = None \<and>
   fst (main demo_env caught_up_world) = 0 \<and>
   csv_file (snd (main demo_env caught_up_world)) = Some [] \<and>
   remote_dir (snd (main demo_env caught_up_world)) = remote_dir caught_up_world \<and>
   LAST_ID_FILE (snd (main demo_env caught_up_world)) = LAST_ID_FILE caught_up_world"
  by (simp add: caught_up_read demo_table_facts demo_env_simps(1) caught_up_run
      caught_up_world_simps fst_main)

subsection \<open>A failing data source\<close>

text \<open>
  Claim C5, as the code has it. When a query raises during pagination, the run exits
  with status 1, the checkpoint file and the remote directory are as before the run, and
  the CSV file is not removed: it holds the header and the records written for the rows
  fetched before the failure.
\<close>

theorem db_error_keeps_partial_file:
  fixes e :: env and w :: world
  assumes "fst (export e w) = Inl DbQueryError"
  defines "w' \<equiv> snd (main e w)"
  shows "fst (main e w) = 1 \<and>
         LAST_ID_FILE w' = LAST_ID_FILE w \<and>
         remote_dir w' = remote_dir w \<and>
         csv_file w' \<noteq> None \<and>
         csv_file w' = Some (loop_records None (rows_of_run w w'))"
  using assms(1)
  by (cases rule: export_cases [of e w])
    (simp_all add: w'_def fst_main del: concat_eq_Nil_conv)

theorem db_error_keeps_partial_file_witness:
  "fst (export demo_env faulty_world) = Inl DbQueryError \<and>
   fst (main demo_env faulty_world) = 1 \<and>
   LAST_ID_FILE (snd (main demo_env faulty_world)) = LAST_ID_FILE faulty_world \<and>
   remote_dir (snd (main demo_env faulty_world)) = remote_dir faulty_world \<and>
   csv_file (snd (main demo_env faulty_world)) \<noteq> None"
proof -
  have h: "fst (export demo_env faulty_world) = Inl DbQueryError"
    by (simp add: demo_fault_run)
  from db_error_keeps_partial_file [OF h] h show ?thesis by blast
qed

text \<open>
  The concrete run behind this: the data source answers one query and fails at the
  second. There was no CSV file before the run; after it the file holds the header and
  the two rows of the first page.
\<close>

theorem db_error_discards_file_counterexample:
  "fst (export demo_env faulty_world) = Inl DbQueryError \<and>
   csv_file faulty_world = None \<and>
   csv_file (snd (main demo_env faulty_world)) =
     Some [Header [''ID'', ''COMMENT''], Record [IntV 1, StrV ''call''],
           Record [IntV 2, StrV ''call'']] \<and>
   csv_file (snd (main demo_env faulty_world)) \<noteq> None"
  by (simp add: demo_fault_run faulty_world_simps)

subsection \<open>The header\<close>

text \<open>
  Claim C8. In every run that fetches a row, the CSV file at the end of the run is one
  header followed by the records of the rows: the header is the list of column names of
  the first row fetched, in that row's order, it comes first, and no other record of the
  file is a header.
\<close>

theorem header_written_once:
  assumes "rows_of_run w (snd (main e w)) = r0 # rs"
  shows "csv_file (snd (main e w)) =
           Some (Header (map fst r0) # rows_written (map fst r0) (r0 # rs)) \<and>
         filter is_Header (Header (map fst r0) # rows_written (map fst r0) (r0 # rs)) =
           [Header (map fst r0)]"
proof -
  have h: "filter is_Header (rows_written fn rows) = []" for fn rows
    by (simp add: filter_empty_conv rows_written_no_Header)
  have "csv_file (snd (main e w)) = Some (loop_records None (r0 # rs))"
    using assms
    by (cases rule: export_cases [of e w]) (simp_all del: concat_eq_Nil_conv)
  then show ?thesis by (simp add: loop_records_def h del: rows_written.simps)
qed

theorem header_written_once_witness:
  "rows_of_run demo_world (snd (main demo_env demo_world))
     = demo_row 1 # [demo_row 2, demo_row 3, demo_row 4, demo_row 5] \<and>
   csv_file (snd (main demo_env demo_world)) =
     Some (Header [''ID'', ''COMMENT''] #
           rows_written [''ID'', ''COMMENT'']
             (demo_row 1 # [demo_row 2, demo_row 3, demo_row 4, demo_row 5])) \<and>
   filter is_Header (Header [''ID'', ''COMMENT''] #
       rows_written [''ID'', ''COMMENT'']
         (demo_row 1 # [demo_row 2, demo_row 3, demo_row 4, demo_row 5])) =
     [Header [''ID'', ''COMMENT'']]"
proof -
  have r: "rows_of_run demo_world (snd (main demo_env demo_world))
     = demo_row 1 # [demo_row 2, demo_row 3, demo_row 4, demo_row 5]"
    by (simp add: demo_run demo_table_def)
  from header_written_once [OF r, unfolded fst_demo_row] r show ?thesis by blast
qed

subsection \<open>The end of the loop\<close>

text \<open>
  Claim C9. \<open>export_loop\<close> is a total function: its termination is proved where it is
  defined, for every table and batch size. With a positive batch size, a data source
  without fault and a table whose rows all have the same columns, the loop returns
  normally, the last query it made returned the empty page, and every query before
  returned a page that is not empty. The order of the identifiers plays no part in this.
\<close>

theorem loop_ends_on_empty_page:
  assumes "db_answers w = None" and "0 < BATCH_SIZE e"
    and "list_all (\<lambda>r. map fst r = cols) (table e)" and "writer l = None"
  shows "\<exists>l' w' qs c.
           export_loop e l w = (Inr l', w') \<and>
           executed w' = executed w @ qs @ [(c, [])] \<and>
           list_all (\<lambda>q. snd q \<noteq> []) qs"
proof -
  from assms(2) have b0: "0 \<le> BATCH_SIZE e" by simp
  obtain l' where l': "fst (export_loop e l w) = Inr l'"
    using loop_returns [OF b0 assms(3) assms(1)] assms(4) by blast
  obtain log where post: "loop_post e l w (export_loop e l w) log"
    using export_loop_post by blast
  with l' have ex: "executed (snd (export_loop e l w)) = executed w @ log"
    and ch: "chain e (last_id l) log" and ne: "log \<noteq> []" and lst: "snd (last log) = []"
    by (simp_all add: loop_post_def)
  from ne lst have log: "log = butlast log @ [(fst (last log), [])]"
    by (metis append_butlast_last_id prod.collapse)
  have "snd q \<noteq> []" if "q \<in> set (butlast log)" for q
  proof -
    from that obtain k where k: "k < length (butlast log)" "butlast log ! k = q"
      by (auto simp: in_set_conv_nth)
    then have "Suc k < length log" by simp
    from chain_nth [OF ch this] k show ?thesis by (simp add: nth_butlast)
  qed
  then have "list_all (\<lambda>q. snd q \<noteq> []) (butlast log)" by (simp add: list_all_iff)
  moreover have "export_loop e l w = (Inr l', snd (export_loop e l w))"
    using l' by (metis prod.collapse)
  moreover have "executed (snd (export_loop e l w)) = executed w @ butlast log @ [(fst (last log), [])]"
    using ex log by simp
  ultimately show ?thesis by blast
qed

theorem loop_ends_on_empty_page_witness:
  "db_answers demo_world = None \<and> 0 < BATCH_SIZE demo_env \<and>
   list_all (\<lambda>r. map fst r = [''ID'', ''COMMENT'']) (table demo_env) \<and>
   writer (start_locals demo_world) = None \<and>
   (\<exists>l' w' qs c.
      export_loop demo_env (start_locals demo_world) demo_world = (Inr l', w') \<and>
      executed w' = executed demo_world @ qs @ [(c, [])] \<and>
      list_all (\<lambda>q. snd q \<noteq> []) qs)"
proof -
  have w: "writer (start_locals demo_world) = None" by simp
  from loop_ends_on_empty_page [OF demo_world_simps(4) demo_batch demo_cols w]
    demo_world_simps(4) demo_batch demo_cols w
  show ?thesis by blast
qed

end
